theory Spec2Isabelle
  imports Complex_Main "HOL-Library.AList" "HOL-Library.Sublist"
begin

section \<open>The crawl engine of \<^verbatim>\<open>src/services/crawler.py\<close>\<close>

text \<open>
  Python strings are modelled as \<^typ>\<open>string\<close>, one \<^typ>\<open>char\<close> per character, so the
  model covers URLs and page text whose characters are below 256. Python integers are
  \<^typ>\<open>int\<close>. A \<^verbatim>\<open>dict\<close> is an association list kept by \<^const>\<open>AList.update\<close>: assigning
  to a present key replaces its value in place, assigning to a new key appends it, which
  is the insertion order of a Python dictionary; \<^verbatim>\<open>len(d)\<close> is the length of the list.
\<close>

subsection \<open>String operations of the Python runtime\<close>

text \<open>\<^verbatim>\<open>s.startswith(p)\<close>.\<close>

fun startswith :: "string \<Rightarrow> string \<Rightarrow> bool" where
  "startswith s [] = True"
| "startswith [] (p # ps) = False"
| "startswith (c # cs) (p # ps) = (c = p \<and> startswith cs ps)"

text \<open>\<^verbatim>\<open>s.endswith(p)\<close>.\<close>

definition endswith :: "string \<Rightarrow> string \<Rightarrow> bool" where
  "endswith s p = startswith (rev s) (rev p)"

text \<open>\<^verbatim>\<open>s.startswith((p1, p2, ...))\<close>: a tuple of prefixes.\<close>

definition startswith_any :: "string \<Rightarrow> string list \<Rightarrow> bool" where
  "startswith_any s ps = list_ex (startswith s) ps"

text \<open>\<^verbatim>\<open>sub in s\<close> for strings.\<close>

fun contains :: "string \<Rightarrow> string \<Rightarrow> bool" where
  "contains sub [] = (sub = [])"
| "contains sub (c # cs) = (startswith (c # cs) sub \<or> contains sub cs)"

text \<open>
  \<^verbatim>\<open>s.lower()\<close> on the letters A to Z. Python also lowers the accented capitals
  above 127, to letters above 127; the code compares lowered text with ASCII text only
  (the extensions of the deny list and \<^verbatim>\<open>text/html\<close>), so these are left as they are.
\<close>

definition lower_char :: "char \<Rightarrow> char" where
  "lower_char c =
     (case map_of (zip ''ABCDEFGHIJKLMNOPQRSTUVWXYZ'' ''abcdefghijklmnopqrstuvwxyz'') c of
        Some d \<Rightarrow> d
      | None \<Rightarrow> c)"

definition lower :: "string \<Rightarrow> string" where
  "lower s = map lower_char s"

text \<open>
  \<^verbatim>\<open>s.strip()\<close>: the whitespace characters of Python below 256 are 9 to 13, 28 to 32,
  133 and 160.
\<close>

definition isspace :: "char \<Rightarrow> bool" where
  "isspace c = (of_char c \<in> {9, 10, 11, 12, 13, 28, 29, 30, 31, 32, 133, 160 :: nat})"

definition strip :: "string \<Rightarrow> string" where
  "strip s = rev (dropWhile isspace (rev (dropWhile isspace s)))"

text \<open>\<^verbatim>\<open>s.split("#")[0]\<close>: the text before the first \<^verbatim>\<open>#\<close>, all of it when there is none.\<close>

definition before_hash :: "string \<Rightarrow> string" where
  "before_hash s = takeWhile (\<lambda>c. c \<noteq> CHR ''#'') s"

text \<open>\<^verbatim>\<open>str(n)\<close> for an integer, as used by the f-string of the status message.\<close>

definition digit_char :: "nat \<Rightarrow> char" where
  "digit_char d = ''0123456789'' ! (d mod 10)"

fun str_nat :: "nat \<Rightarrow> string" where
  "str_nat n = (if n < 10 then [digit_char n] else str_nat (n div 10) @ [digit_char n])"

declare str_nat.simps [simp del]

definition str_int :: "int \<Rightarrow> string" where
  "str_int i = (if i < 0 then CHR ''-'' # str_nat (nat (- i)) else str_nat (nat i))"

text \<open>The truth value of a string or of \<^verbatim>\<open>None\<close> in a condition: only a non-empty string is true.\<close>

fun truthy :: "string option \<Rightarrow> bool" where
  "truthy None = False"
| "truthy (Some s) = (s \<noteq> [])"

text \<open>
  Floats. A Python float is a binary64 number; it is modelled as the real number it
  denotes. Every arithmetic operation on floats returns the exact result rounded to a
  binary64 number; the rounding is the function \<open>round64\<close> of the world below, so
  \<^verbatim>\<open>a - b\<close> on floats is \<open>round64 W (a - b)\<close>. Overflow to infinity does not arise
  for clock readings and page sizes and is not modelled. \<^verbatim>\<open>int(x)\<close> of a float
  truncates towards zero.
\<close>

definition py_int :: "real \<Rightarrow> int" where
  "py_int x = (if 0 \<le> x then \<lfloor>x\<rfloor> else \<lceil>x\<rceil>)"

subsection \<open>Origin of the crawl\<close>

text \<open>A \<^verbatim>\<open>ValueError\<close> raised by a library call, with its message.\<close>

datatype error = ValueError string

text \<open>\<^verbatim>\<open>base_url = f"{parsed_url.scheme}://{parsed_url.netloc}"\<close>\<close>

definition base_url_of :: "string \<times> string \<Rightarrow> string" where
  "base_url_of p = fst p @ ''://'' @ snd p"

subsection \<open>Admission filter: \<^verbatim>\<open>_should_visit_url\<close>\<close>

definition skip_extensions :: "string list" where
  "skip_extensions =
     [''.jpg'', ''.jpeg'', ''.png'', ''.gif'', ''.pdf'', ''.doc'', ''.docx'',
      ''.xls'', ''.xlsx'', ''.ppt'', ''.pptx'', ''.zip'', ''.tar'', ''.gz'',
      ''.mp3'', ''.mp4'', ''.avi'', ''.mov'', ''.wmv'', ''.css'', ''.js'']"

definition should_visit_url :: "string \<Rightarrow> string \<Rightarrow> bool" where
  "should_visit_url u base =
     (if \<not> startswith u base then False
      else if CHR ''#'' \<in> set u then False
      else if list_ex (\<lambda>ext. endswith (lower u) ext) skip_extensions then False
      else True)"

subsection \<open>Data model\<close>

text \<open>
  \<^verbatim>\<open>PageData\<close> with the fields the crawl loop and the statistics read. The other fields
  of the dataclass (title, content, meta tags, headings, images, word count, schema.org
  blocks) are computed from the parsed page, stored, and never read again by the crawler.
\<close>

record PageData =
  url :: string
  html :: string
  internal_links :: "string list"
  external_links :: "string list"
  status_code :: int
  load_time_ms :: int

record CrawlStats =
  total_pages_crawled :: int
  total_errors :: int
  crawl_time_seconds :: real
  average_page_size_kb :: real
  average_load_time_ms :: real
  pages_by_status_code :: "(int \<times> int) list"

record CrawlResult =
  base_url :: string
  pages :: "(string \<times> PageData) list"
  errors :: "(string \<times> string) list"
  site_structure :: "(string \<times> string list) list"
  crawl_stats :: CrawlStats

text \<open>The attributes set by \<^verbatim>\<open>WebsiteCrawler.__init__\<close>, which stores its arguments unchecked.\<close>

record WebsiteCrawler =
  max_pages :: int
  max_depth :: int
  respect_robots :: bool
  user_agent :: string
  timeout :: int
  max_concurrent_requests :: int

subsection \<open>The world outside the crawler\<close>

text \<open>
  A parsed document, as \<^verbatim>\<open>BeautifulSoup(html, "html.parser")\<close> returns it: text nodes and
  elements with a tag name, attributes and children, in document order.
\<close>

datatype node = Text string | Element string "(string \<times> string) list" "node list"

text \<open>
  What one \<^verbatim>\<open>session.get\<close> meets. \<^verbatim>\<open>t_request\<close> is the value of \<^verbatim>\<open>time.time()\<close> read
  before the request (line 202); \<^verbatim>\<open>t_headers\<close> is the value read inside the
  \<^verbatim>\<open>async with\<close> block (line 206), which aiohttp enters once the status line and the
  headers of the response have arrived; \<^verbatim>\<open>t_body\<close> is the time at which
  \<^verbatim>\<open>await response.text()\<close> has read the whole body, a moment at which the code reads no
  clock. \<^verbatim>\<open>content_type\<close> is the header if present.
\<close>

record http_response =
  t_request :: real
  t_headers :: real
  t_body :: real
  content_type :: "string option"
  status :: int
  body :: string

text \<open>
  Any exception raised inside the \<^verbatim>\<open>try\<close> block of \<^verbatim>\<open>_process_url\<close> (connection
  failure, timeout, decoding or parsing failure) is \<open>Raises msg\<close> with \<open>msg\<close> the value
  of \<^verbatim>\<open>str(e)\<close>.
\<close>

datatype outcome = Raises string | Responds http_response

text \<open>
  The network, the libraries and the float arithmetic are parameters of the model.
  \<open>http_get n u\<close> is what the \<open>n\<close>-th call of \<^verbatim>\<open>_process_url\<close> (counted from 0 over
  the whole run) meets at URL \<open>u\<close>, so a site may answer differently each time it is
  asked. \<open>parse_html\<close> is BeautifulSoup's parser and \<open>urljoin\<close> is
  \<^verbatim>\<open>urllib.parse.urljoin\<close>. \<open>urlparse\<close> is \<^verbatim>\<open>urllib.parse.urlparse\<close>, as far as
  \<^verbatim>\<open>crawl\<close> uses it: the \<^verbatim>\<open>scheme\<close> and the \<^verbatim>\<open>netloc\<close> of its result, or the
  \<^verbatim>\<open>ValueError\<close> it raises for a seed it refuses. \<open>round64\<close> rounds a real number to
  the nearest binary64 number, and \<open>compensated_sum\<close> tells which builtin \<^verbatim>\<open>sum\<close> the
  interpreter has (see the statistics below). The two remaining fields are the clock
  readings at the start and the end of \<^verbatim>\<open>crawl\<close>.
\<close>

record world =
  http_get :: "nat \<Rightarrow> string \<Rightarrow> outcome"
  parse_html :: "string \<Rightarrow> node list"
  urljoin :: "string \<Rightarrow> string \<Rightarrow> string"
  urlparse :: "string \<Rightarrow> error + (string \<times> string)"
  round64 :: "real \<Rightarrow> real"
  compensated_sum :: bool
  t_crawl_start :: real
  t_crawl_end :: real

subsection \<open>HTML extractor: \<^verbatim>\<open>_extract_content\<close> and \<^verbatim>\<open>_extract_links\<close>\<close>

text \<open>
  \<^verbatim>\<open>_extract_content\<close> calls \<^verbatim>\<open>decompose()\<close> on every element named script, style,
  header, footer or nav. This edits the parsed document in place, and
  \<^verbatim>\<open>_process_url\<close> hands the same object to \<^verbatim>\<open>_extract_links\<close> afterwards.
\<close>

definition is_tagged :: "string list \<Rightarrow> node \<Rightarrow> bool" where
  "is_tagged names nd = (case nd of Text t \<Rightarrow> False | Element name attrs children \<Rightarrow> name \<in> set names)"

fun decompose :: "string list \<Rightarrow> node \<Rightarrow> node" where
  "decompose names (Text t) = Text t"
| "decompose names (Element name attrs children) =
     Element name attrs (map (decompose names) (filter (\<lambda>c. \<not> is_tagged names c) children))"

definition extract_content_soup :: "node list \<Rightarrow> node list" where
  "extract_content_soup soup =
     map (decompose [''script'', ''style'', ''header'', ''footer'', ''nav''])
       (filter (\<lambda>c. \<not> is_tagged [''script'', ''style'', ''header'', ''footer'', ''nav''] c) soup)"

text \<open>\<^verbatim>\<open>[link["href"] for link in soup.find_all("a", href=True)]\<close>, in document order.\<close>

fun find_all_a_href :: "node \<Rightarrow> string list" where
  "find_all_a_href (Text t) = []"
| "find_all_a_href (Element name attrs children) =
     (if name = ''a'' then (case map_of attrs ''href'' of Some h \<Rightarrow> [h] | None \<Rightarrow> []) else [])
     @ concat (map find_all_a_href children)"

text \<open>The body of the \<^verbatim>\<open>for\<close> loop of \<^verbatim>\<open>_extract_links\<close>, for one anchor.\<close>

definition extract_link ::
  "world \<Rightarrow> string \<Rightarrow> string \<Rightarrow> string \<Rightarrow> string list \<times> string list \<Rightarrow> string list \<times> string list" where
  "extract_link W base current_url raw acc =
     (let href = strip raw in
      if href = [] \<or> startswith_any href [''javascript:'', ''mailto:'', ''tel:''] then acc
      else
        let href1 = (if \<not> startswith_any href [''http://'', ''https://'']
                     then urljoin W current_url href else href);
            href2 = before_hash href1
        in if startswith href2 base
           then (if href2 \<notin> set (fst acc) then (fst acc @ [href2], snd acc) else acc)
           else (if href2 \<notin> set (snd acc) then (fst acc, snd acc @ [href2]) else acc))"

definition extract_links :: "world \<Rightarrow> node list \<Rightarrow> string \<Rightarrow> string \<Rightarrow> string list \<times> string list" where
  "extract_links W soup base current_url =
     fold (extract_link W base current_url) (concat (map find_all_a_href soup)) ([], [])"

subsection \<open>Fetch worker: \<^verbatim>\<open>_process_url\<close>\<close>

type_synonym task_result = "string \<times> PageData option \<times> string list \<times> string option"

definition process_url :: "world \<Rightarrow> nat \<Rightarrow> string \<Rightarrow> int \<Rightarrow> string \<Rightarrow> task_result" where
  "process_url W n u depth base =
     (case http_get W n u of
        Raises msg \<Rightarrow> (u, None, [], Some msg)
      | Responds r \<Rightarrow>
          let load = py_int (round64 W (round64 W (t_headers r - t_request r) * 1000));
              ct = (case content_type r of None \<Rightarrow> [] | Some c \<Rightarrow> c)
          in if \<not> contains ''text/html'' (lower ct)
             then (u, None, [], Some (''Not HTML content: '' @ ct))
             else if status r \<ge> 400
             then (u, None, [], Some (''HTTP status '' @ str_int (status r)))
             else
               let soup = extract_content_soup (parse_html W (body r));
                   links = extract_links W soup base u
               in (u,
                   Some \<lparr>url = u, html = body r, internal_links = fst links,
                         external_links = snd links, status_code = status r,
                         load_time_ms = load\<rparr>,
                   fst links, None))"

subsection \<open>Frontier scheduler: the loop of \<^verbatim>\<open>crawl\<close>\<close>

text \<open>
  The local variables of \<^verbatim>\<open>crawl\<close>. \<open>calls\<close> is not a variable of the source: it logs
  the \<open>(url, depth)\<close> arguments of every call of \<^verbatim>\<open>_process_url\<close>, in the order the
  tasks are created.
\<close>

record crawl_state =
  urls_to_visit :: "(string \<times> int) list"
  visited_urls :: "string set"
  pages_data :: "(string \<times> PageData) list"
  error_urls :: "(string \<times> string) list"
  site_structure_var :: "(string \<times> string list) list"
  calls :: "(string \<times> int) list"

text \<open>Lines 113 to 120: the tasks of one batch, and the visited set after it.\<close>

fun create_tasks ::
  "string \<Rightarrow> (string \<times> int) list \<Rightarrow> string set \<Rightarrow> (string \<times> int) list \<times> string set" where
  "create_tasks base [] visited = ([], visited)"
| "create_tasks base ((u, depth) # batch) visited =
     (if u \<notin> visited \<and> should_visit_url u base
      then (let r = create_tasks base batch (insert u visited) in ((u, depth) # fst r, snd r))
      else create_tasks base batch visited)"

text \<open>Lines 151 to 155: the links of one page enter the frontier.\<close>

fun enqueue ::
  "string \<Rightarrow> string set \<Rightarrow> int \<Rightarrow> string list \<Rightarrow> (string \<times> int) list \<Rightarrow> (string \<times> int) list" where
  "enqueue base visited current_depth [] queue = queue"
| "enqueue base visited current_depth (new_url # rest) queue =
     enqueue base visited current_depth rest
       (if new_url \<notin> visited \<and> new_url \<notin> set (map fst queue) \<and> should_visit_url new_url base
        then queue @ [(new_url, current_depth + 1)]
        else queue)"

text \<open>\<^verbatim>\<open>next((u["depth"] for u in current_batch if u["url"] == url), 0)\<close>\<close>

definition depth_in_batch :: "(string \<times> int) list \<Rightarrow> string \<Rightarrow> int" where
  "depth_in_batch batch u = (case filter (\<lambda>e. fst e = u) batch of [] \<Rightarrow> 0 | e # es \<Rightarrow> snd e)"

text \<open>
  Lines 126 to 155, for one result. \<^verbatim>\<open>_process_url\<close> catches every exception and always
  returns a non-empty tuple, so the two \<^verbatim>\<open>continue\<close> branches are never taken. A
  \<^verbatim>\<open>PageData\<close> object is always true in a condition.
\<close>

fun handle_result ::
  "WebsiteCrawler \<Rightarrow> string \<Rightarrow> (string \<times> int) list \<Rightarrow> task_result \<Rightarrow> crawl_state \<Rightarrow> crawl_state" where
  "handle_result cfg base current_batch (u, page_data, new_urls, error) st =
     (if truthy error
      then st\<lparr>error_urls := AList.update u (case error of Some msg \<Rightarrow> msg | None \<Rightarrow> []) (error_urls st)\<rparr>
      else
        (case page_data of
           None \<Rightarrow> st
         | Some pd \<Rightarrow>
             let st1 = st\<lparr>pages_data := AList.update u pd (pages_data st),
                          site_structure_var :=
                            AList.update u (filter (\<lambda>link. startswith link base) (internal_links pd))
                              (site_structure_var st)\<rparr>;
                 current_depth = depth_in_batch current_batch u
             in if current_depth < max_depth cfg
                then st1\<lparr>urls_to_visit :=
                           enqueue base (visited_urls st1) current_depth new_urls (urls_to_visit st1)\<rparr>
                else st1))"

text \<open>
  One pass of the \<^verbatim>\<open>while\<close> body. \<^verbatim>\<open>asyncio.gather\<close> returns the results in the order
  of the tasks.
\<close>

definition crawl_round :: "WebsiteCrawler \<Rightarrow> world \<Rightarrow> string \<Rightarrow> crawl_state \<Rightarrow> crawl_state" where
  "crawl_round cfg W base st =
     (let k = nat (max_concurrent_requests cfg);
          current_batch = take k (urls_to_visit st);
          t = create_tasks base current_batch (visited_urls st);
          n = length (calls st);
          batch_results = map (\<lambda>(i, (u, depth)). process_url W (n + i) u depth base) (enumerate 0 (fst t));
          st1 = st\<lparr>urls_to_visit := drop k (urls_to_visit st), visited_urls := snd t,
                    calls := calls st @ fst t\<rparr>
      in fold (handle_result cfg base current_batch) batch_results st1)"

text \<open>The \<^verbatim>\<open>while\<close> loop. It need not end, so its result is optional: \<open>None\<close> is a run that never returns.\<close>

partial_function (option) crawl_loop ::
  "WebsiteCrawler \<Rightarrow> world \<Rightarrow> string \<Rightarrow> crawl_state \<Rightarrow> crawl_state option" where
  "crawl_loop cfg W base st =
     (if urls_to_visit st \<noteq> [] \<and> int (length (pages_data st)) < max_pages cfg
      then crawl_loop cfg W base (crawl_round cfg W base st)
      else Some st)"

declare crawl_loop.simps [code]

subsection \<open>Statistics\<close>

text \<open>
  \<^verbatim>\<open>sum(xs)\<close> over floats starts from the integer 0 and goes through \<open>xs\<close> from left
  to right. Up to CPython 3.11 it adds every float to the running total, every addition
  rounded: \<open>naive_sum\<close>. From CPython 3.12 on it is Neumaier's compensated summation:
  the first float is added to the 0; from then on the builtin keeps, beside the running
  total \<open>f\<close>, a correction \<open>c\<close> that starts at 0, executes for every further float \<open>x\<close>

  \<^verbatim>\<open>t = f + x; if (fabs(f) >= fabs(x)) c += (f - t) + x; else c += (x - t) + f; f = t;\<close>

  and at the end returns \<open>f + c\<close> when \<open>c\<close> is not zero, and \<open>f\<close> otherwise:
  \<open>neumaier_sum\<close>. The field \<open>compensated_sum\<close> of the world says which of the two the
  interpreter runs.
\<close>

definition naive_sum :: "world \<Rightarrow> real list \<Rightarrow> real" where
  "naive_sum W xs = fold (\<lambda>x acc. round64 W (acc + x)) xs 0"

definition neumaier_step :: "world \<Rightarrow> real \<Rightarrow> real \<times> real \<Rightarrow> real \<times> real" where
  "neumaier_step W x fc =
     (let f = fst fc; c = snd fc; t = round64 W (f + x)
      in (t, round64 W (c + (if \<bar>f\<bar> \<ge> \<bar>x\<bar> then round64 W (round64 W (f - t) + x)
                               else round64 W (round64 W (x - t) + f)))))"

definition neumaier_sum :: "world \<Rightarrow> real list \<Rightarrow> real" where
  "neumaier_sum W xs =
     (case xs of
        [] \<Rightarrow> 0
      | x # rest \<Rightarrow>
          let fc = fold (neumaier_step W) rest (round64 W (0 + x), 0)
          in if snd fc \<noteq> 0 then round64 W (fst fc + snd fc) else fst fc)"

definition float_sum :: "world \<Rightarrow> real list \<Rightarrow> real" where
  "float_sum W xs = (if compensated_sum W then neumaier_sum W xs else naive_sum W xs)"

text \<open>
  The division of two integers, \<^verbatim>\<open>len(page.html) / 1024\<close> and
  \<^verbatim>\<open>total_time / len(pages_data)\<close>, is the exact quotient rounded once; the sum of the
  load times is a sum of integers and exact.
\<close>

definition calculate_avg_page_size :: "world \<Rightarrow> (string \<times> PageData) list \<Rightarrow> real" where
  "calculate_avg_page_size W pd =
     (if pd = [] then 0
      else round64 W
             (float_sum W (map (\<lambda>page. round64 W (real (length (html page)) / 1024)) (map snd pd))
              / real (length pd)))"

definition calculate_avg_load_time :: "world \<Rightarrow> (string \<times> PageData) list \<Rightarrow> real" where
  "calculate_avg_load_time W pd =
     (if pd = [] then 0
      else round64 W (real_of_int (sum_list (map load_time_ms (map snd pd))) / real (length pd)))"

definition count_status_codes :: "(string \<times> PageData) list \<Rightarrow> (int \<times> int) list" where
  "count_status_codes pd =
     fold (\<lambda>page status_counts.
             AList.update (status_code page)
               ((case map_of status_counts (status_code page) of None \<Rightarrow> 0 | Some c \<Rightarrow> c) + 1)
               status_counts)
       (map snd pd) []"

subsection \<open>Crawl coordinator: \<^verbatim>\<open>crawl\<close>\<close>

definition initial_state :: "string \<Rightarrow> crawl_state" where
  "initial_state start_url =
     \<lparr>urls_to_visit = [(start_url, 0)], visited_urls = {}, pages_data = [], error_urls = [],
      site_structure_var = [], calls = []\<rparr>"

definition make_result :: "world \<Rightarrow> string \<Rightarrow> crawl_state \<Rightarrow> CrawlResult" where
  "make_result W base st =
     \<lparr>base_url = base, pages = pages_data st, errors = error_urls st,
      site_structure = site_structure_var st,
      crawl_stats =
        \<lparr>total_pages_crawled = int (length (pages_data st)),
         total_errors = int (length (error_urls st)),
         crawl_time_seconds = round64 W (t_crawl_end W - t_crawl_start W),
         average_page_size_kb = calculate_avg_page_size W (pages_data st),
         average_load_time_ms = calculate_avg_load_time W (pages_data st),
         pages_by_status_code = count_status_codes (pages_data st)\<rparr>\<rparr>"

text \<open>
  The run up to the end of the loop, with the final values of the local variables.
  \<^verbatim>\<open>urlparse\<close> may raise \<^verbatim>\<open>ValueError\<close>, and \<^verbatim>\<open>asyncio.Semaphore\<close> raises it for
  a negative initial value; these are the exceptions before the loop.
  \<open>Some (Inl e)\<close> is an exception that leaves \<^verbatim>\<open>crawl\<close>, \<open>None\<close> a run that never
  returns.
\<close>

definition crawl_run :: "WebsiteCrawler \<Rightarrow> world \<Rightarrow> string \<Rightarrow> (error + string \<times> crawl_state) option" where
  "crawl_run cfg W start_url =
     (case urlparse W start_url of
        Inl e \<Rightarrow> Some (Inl e)
      | Inr parsed_url \<Rightarrow>
          if max_concurrent_requests cfg < 0
          then Some (Inl (ValueError ''Semaphore initial value must be >= 0''))
          else map_option (\<lambda>st. Inr (base_url_of parsed_url, st))
                 (crawl_loop cfg W (base_url_of parsed_url) (initial_state start_url)))"

definition crawl :: "WebsiteCrawler \<Rightarrow> world \<Rightarrow> string \<Rightarrow> (error + CrawlResult) option" where
  "crawl cfg W start_url =
     map_option (map_sum id (\<lambda>(base, st). make_result W base st)) (crawl_run cfg W start_url)"

section \<open>Specification notions\<close>

text \<open>
  The states a run passes through at the head of the \<^verbatim>\<open>while\<close> loop: the initial one,
  and the one after a pass of the body from a state in which the loop condition holds.
  They include the states of runs that never end.
\<close>

inductive reachable :: "WebsiteCrawler \<Rightarrow> world \<Rightarrow> string \<Rightarrow> string \<Rightarrow> crawl_state \<Rightarrow> bool"
  for cfg :: WebsiteCrawler and W :: world and base :: string and start_url :: string where
  reachable_init: "reachable cfg W base start_url (initial_state start_url)"
| reachable_round:
    "reachable cfg W base start_url st \<Longrightarrow> urls_to_visit st \<noteq> [] \<Longrightarrow>
     int (length (pages_data st)) < max_pages cfg \<Longrightarrow>
     reachable cfg W base start_url (crawl_round cfg W base st)"

text \<open>
  \<open>link_chain cfg pgs start_url u d\<close>: the URL \<open>u\<close> is found from the seed by a chain
  of \<open>d\<close> links, each of them an internal link of a collected page that lies less than
  \<open>max_depth\<close> links from the seed. The seed itself is the chain of no link.
\<close>

inductive link_chain ::
  "WebsiteCrawler \<Rightarrow> (string \<times> PageData) list \<Rightarrow> string \<Rightarrow> string \<Rightarrow> int \<Rightarrow> bool"
  for cfg :: WebsiteCrawler and pgs :: "(string \<times> PageData) list" and start_url :: string where
  chain_seed: "link_chain cfg pgs start_url start_url 0"
| chain_link:
    "link_chain cfg pgs start_url p d \<Longrightarrow> d < max_depth cfg \<Longrightarrow> map_of pgs p = Some pd \<Longrightarrow>
     v \<in> set (internal_links pd) \<Longrightarrow> link_chain cfg pgs start_url v (d + 1)"

text \<open>
  The invariant of the scheduler. \<open>pending\<close> lists the URLs of the current batch whose
  results are still to be handled; between two passes it is empty.
\<close>

definition crawl_inv :: "WebsiteCrawler \<Rightarrow> string \<Rightarrow> string list \<Rightarrow> crawl_state \<Rightarrow> bool" where
  "crawl_inv cfg start_url pending st \<longleftrightarrow>
     distinct pending \<and> set pending \<subseteq> visited_urls st \<and>
     fst ` set (pages_data st) \<union> fst ` set (error_urls st) \<subseteq> visited_urls st - set pending \<and>
     fst ` set (pages_data st) \<inter> fst ` set (error_urls st) = {} \<and>
     distinct (map fst (pages_data st)) \<and> distinct (map fst (error_urls st)) \<and>
     distinct (map fst (calls st)) \<and> fst ` set (calls st) = visited_urls st \<and>
     distinct (map fst (urls_to_visit st)) \<and>
     fst ` set (urls_to_visit st) \<inter> visited_urls st = {} \<and>
     (\<forall>e \<in> set (urls_to_visit st) \<union> set (calls st).
        link_chain cfg (pages_data st) start_url (fst e) (snd e))"

text \<open>
  The two halves of a pass: \<open>dispatched\<close> are the tasks created for the batch, and
  \<open>after_dispatch\<close> is the state when they have been created and no result is handled yet.
\<close>

definition dispatched :: "WebsiteCrawler \<Rightarrow> string \<Rightarrow> crawl_state \<Rightarrow> (string \<times> int) list" where
  "dispatched cfg base st =
     fst (create_tasks base (take (nat (max_concurrent_requests cfg)) (urls_to_visit st)) (visited_urls st))"

definition after_dispatch :: "WebsiteCrawler \<Rightarrow> string \<Rightarrow> crawl_state \<Rightarrow> crawl_state" where
  "after_dispatch cfg base st =
     st\<lparr>urls_to_visit := drop (nat (max_concurrent_requests cfg)) (urls_to_visit st),
        visited_urls := visited_urls st \<union> fst ` set (dispatched cfg base st),
        calls := calls st @ dispatched cfg base st\<rparr>"

section \<open>A small site, for the examples\<close>

text \<open>
  \<^verbatim>\<open>https://example.com/\<close> links to three pages of its own site, to its own top and to
  another site; every URL answers 200 with an HTML content type, the headers one second
  and the body three seconds after the request. \<open>urljoin_example\<close> stands for
  \<^verbatim>\<open>urljoin\<close> on the references used here: a reference that starts with \<^verbatim>\<open>#\<close> replaces
  the fragment of the base, one that starts with \<^verbatim>\<open>/\<close> replaces what follows the host.
\<close>

text \<open>
  \<open>urlparse_example\<close> stands for \<^verbatim>\<open>urlparse\<close> on the seeds of the examples, which
  consist of the ASCII characters from the blank to the tilde, start with no blank and
  hold no square bracket. For such a seed the library raises nothing; the scheme is the
  text before the first colon when that text starts with a letter and consists of
  letters, digits, \<^verbatim>\<open>+\<close>, \<^verbatim>\<open>-\<close> and \<^verbatim>\<open>.\<close>, lowercased, and the netloc is what
  follows a leading \<^verbatim>\<open>//\<close> up to the first \<^verbatim>\<open>/\<close>, \<^verbatim>\<open>?\<close> or \<^verbatim>\<open>#\<close>.
\<close>

definition ascii_alpha :: "char \<Rightarrow> bool" where
  "ascii_alpha c = (c \<in> set ''abcdefghijklmnopqrstuvwxyzABCDEFGHIJKLMNOPQRSTUVWXYZ'')"

definition scheme_char :: "char \<Rightarrow> bool" where
  "scheme_char c = (ascii_alpha c \<or> c \<in> set ''0123456789+-.'')"

definition split_scheme :: "string \<Rightarrow> string \<times> string" where
  "split_scheme u =
     (let pre = takeWhile (\<lambda>c. c \<noteq> CHR '':'') u in
      if CHR '':'' \<in> set u \<and> pre \<noteq> [] \<and> ascii_alpha (hd pre) \<and> list_all scheme_char pre
      then (lower pre, drop (length pre + 1) u)
      else ([], u))"

definition split_netloc :: "string \<Rightarrow> string \<times> string" where
  "split_netloc rest =
     (if startswith rest ''//''
      then (takeWhile (\<lambda>c. c \<notin> set ''/?#'') (drop 2 rest),
            dropWhile (\<lambda>c. c \<notin> set ''/?#'') (drop 2 rest))
      else ([], rest))"

definition urlparse_example :: "string \<Rightarrow> error + (string \<times> string)" where
  "urlparse_example u = Inr (fst (split_scheme u), fst (split_netloc (snd (split_scheme u))))"

text \<open>
  \<open>round64_example\<close> stands for the rounding to binary64 on the numbers of the
  examples. These are integers and quotients of small integers by powers of two, which
  are binary64 numbers and are left as they are, and the quotient 1/3, whose nearest
  binary64 number is \<open>6004799503160661 / 2^54\<close>.
\<close>

definition round64_example :: "real \<Rightarrow> real" where
  "round64_example x = (if x = 1 / 3 then 6004799503160661 / 18014398509481984 else x)"

definition urljoin_example :: "string \<Rightarrow> string \<Rightarrow> string" where
  "urljoin_example b r =
     (if startswith r ''#'' then before_hash b @ r
      else if startswith r ''/'' then (case urlparse_example b of Inr p \<Rightarrow> base_url_of p @ r | Inl e \<Rightarrow> r)
      else r)"

definition home_html :: string where
  "home_html = ''<a href=/a>A</a><a href=/b>B</a><a href=/c>C</a><a href=#top>up</a><a href=https://other.com/>o</a>''"

definition home_soup :: "node list" where
  "home_soup =
     [Element ''a'' [(''href'', ''/a'')] [Text ''A''],
      Element ''a'' [(''href'', ''/b'')] [Text ''B''],
      Element ''a'' [(''href'', ''/c'')] [Text ''C''],
      Element ''a'' [(''href'', ''#top'')] [Text ''up''],
      Element ''a'' [(''href'', ''https://other.com/'')] [Text ''o'']]"

definition html_200 :: "string \<Rightarrow> outcome" where
  "html_200 h =
     Responds \<lparr>t_request = 0, t_headers = 1, t_body = 3,
               content_type = Some ''text/html; charset=utf-8'', status = 200, body = h\<rparr>"

definition example_world :: world where
  "example_world =
     \<lparr>http_get = (\<lambda>n u. if u = ''https://example.com/'' then html_200 home_html else html_200 []),
      parse_html = (\<lambda>h. if h = home_html then home_soup else []),
      urljoin = urljoin_example, urlparse = urlparse_example, round64 = round64_example,
      compensated_sum = True, t_crawl_start = 0, t_crawl_end = 10\<rparr>"

text \<open>A network on which every request times out: \<^verbatim>\<open>str(asyncio.TimeoutError())\<close> is the empty string.\<close>

definition timeout_world :: world where
  "timeout_world = example_world\<lparr>http_get := (\<lambda>n u. Raises [])\<rparr>"

definition example_config :: WebsiteCrawler where
  "example_config =
     \<lparr>max_pages = 2, max_depth = 3, respect_robots = True, user_agent = ''SEOSageBot/1.0'',
      timeout = 30, max_concurrent_requests = 10\<rparr>"

text \<open>The run of \<open>example_config\<close> on this site from its home page takes two passes of the loop.\<close>

definition example_final :: crawl_state where
  "example_final =
     crawl_round example_config example_world ''https://example.com''
       (crawl_round example_config example_world ''https://example.com''
          (initial_state ''https://example.com/''))"

text \<open>What the fetch worker returns for the home page of the site.\<close>

definition example_page :: PageData where
  "example_page =
     \<lparr>url = ''https://example.com/'', html = home_html,
      internal_links = [''https://example.com/a'', ''https://example.com/b'',
                        ''https://example.com/c'', ''https://example.com/''],
      external_links = [''https://other.com/''], status_code = 200, load_time_ms = 1000\<rparr>"

section \<open>The links of a page, as specified\<close>

text \<open>
  The links of a page, in the spec's words. \<open>link_target\<close> is what one anchor
  contributes: nothing when its trimmed \<^verbatim>\<open>href\<close> is empty or starts with
  \<^verbatim>\<open>javascript:\<close>, \<^verbatim>\<open>mailto:\<close> or \<^verbatim>\<open>tel:\<close>; otherwise the \<^verbatim>\<open>href\<close>, resolved against
  the page's URL unless it starts with \<^verbatim>\<open>http://\<close> or \<^verbatim>\<open>https://\<close>, and cut at its first
  \<^verbatim>\<open>#\<close>. \<open>link_targets\<close> lists them for the anchors of a parsed document, in document
  order. \<open>first_seen\<close> removes repetitions and keeps every first occurrence in place;
  \<open>append_new acc xs\<close> appends to \<open>acc\<close> the first occurrences of what it lacks.
\<close>

fun first_seen :: "'a list \<Rightarrow> 'a list" where
  "first_seen [] = []"
| "first_seen (x # xs) = x # first_seen (filter (\<lambda>y. y \<noteq> x) xs)"

definition append_new :: "'a list \<Rightarrow> 'a list \<Rightarrow> 'a list" where
  "append_new acc xs = acc @ first_seen (filter (\<lambda>y. y \<notin> set acc) xs)"



section \<open>A page with a navigation bar\<close>

text \<open>A page whose only anchor stands in its navigation bar.\<close>

definition nav_soup :: "node list" where
  "nav_soup = [Element ''nav'' [] [Element ''a'' [(''href'', ''/a'')] [Text ''A'']],
               Element ''p'' [] [Text ''Welcome'']]"

section \<open>A site of three pages\<close>

text \<open>
  The home page links to two pages. Its headers arrive \<open>1/512\<close> seconds after the
  request, those of the other pages after \<open>1/1024\<close> seconds: load times of 1, 0 and 0
  milliseconds. The body of the home page has 33 characters.
\<close>

definition thirds_html :: string where
  "thirds_html = ''<a href=/a>A</a> <a href=/b>B</a>''"

definition thirds_soup :: "node list" where
  "thirds_soup =
     [Element ''a'' [(''href'', ''/a'')] [Text ''A''], Text '' '',
      Element ''a'' [(''href'', ''/b'')] [Text ''B'']]"

definition thirds_world :: world where
  "thirds_world =
     example_world
       \<lparr>http_get :=
          (\<lambda>n u. if u = ''https://example.com/''
                 then Responds \<lparr>t_request = 0, t_headers = 1 / 512, t_body = 1,
                                content_type = Some ''text/html'', status = 200, body = thirds_html\<rparr>
                 else Responds \<lparr>t_request = 0, t_headers = 1 / 1024, t_body = 1,
                                content_type = Some ''text/html'', status = 200, body = []\<rparr>),
        parse_html := (\<lambda>h. if h = thirds_html then thirds_soup else [])\<rparr>"

section \<open>Properties\<close>

subsection \<open>Strings\<close>

lemma startswith_prefix: "startswith s p \<longleftrightarrow> prefix p s"
  by (induction s p rule: startswith.induct) auto

lemma endswith_suffix: "endswith s p \<longleftrightarrow> suffix p s"
  by (simp add: endswith_def startswith_prefix suffix_to_prefix)

subsection \<open>Dictionaries\<close>

lemma length_update:
  "length (AList.update k v al) = (if k \<in> fst ` set al then length al else Suc (length al))"
  by (induction al) auto

lemma map_of_update_fresh:
  "k \<notin> fst ` set al \<Longrightarrow> map_of al k' = Some v' \<Longrightarrow> map_of (AList.update k v al) k' = Some v'"
  by (auto simp: AList.update_conv' dest: map_of_SomeD intro: rev_image_eqI)

subsection \<open>Task creation\<close>

lemma create_tasks_subset: "set (fst (create_tasks base batch V)) \<subseteq> set batch"
  by (induction base batch V rule: create_tasks.induct) (auto simp: Let_def)

lemma create_tasks_visited:
  "snd (create_tasks base batch V) = V \<union> fst ` set (fst (create_tasks base batch V))"
  by (induction base batch V rule: create_tasks.induct) (auto simp: Let_def)

lemma create_tasks_fresh: "fst ` set (fst (create_tasks base batch V)) \<inter> V = {}"
  by (induction base batch V rule: create_tasks.induct)
     (auto simp: Let_def create_tasks_visited)

lemma create_tasks_distinct: "distinct (map fst (fst (create_tasks base batch V)))"
proof (induction base batch V rule: create_tasks.induct)
  case (1 base visited)
  then show ?case by simp
next
  case (2 base u depth batch visited)
  show ?case
  proof (cases "u \<notin> visited \<and> should_visit_url u base")
    case True
    have "u \<notin> fst ` set (fst (create_tasks base batch (insert u visited)))"
      using create_tasks_fresh [of base batch "insert u visited"] by auto
    with True 2 show ?thesis by (simp add: Let_def)
  next
    case False
    with 2 show ?thesis by (auto simp: Let_def)
  qed
qed

lemma create_tasks_length: "length (fst (create_tasks base batch V)) \<le> length batch"
  by (induction base batch V rule: create_tasks.induct) (auto simp: Let_def)

lemma create_tasks_admitted:
  "e \<in> set (fst (create_tasks base batch V)) \<Longrightarrow> should_visit_url (fst e) base"
  by (induction base batch V rule: create_tasks.induct) (auto simp: Let_def split: if_splits)

subsection \<open>Fetch worker\<close>

lemma process_url_cases:
  "(\<exists>msg. process_url W n u d base = (u, None, [], Some msg)) \<or>
   (\<exists>pd. process_url W n u d base = (u, Some pd, internal_links pd, None))"
  by (auto simp: process_url_def Let_def split: outcome.splits)

subsection \<open>Frontier growth\<close>

lemma enqueue_set:
  "set (enqueue base V d new q) \<subseteq> set q \<union> {(v, d + 1) | v. v \<in> set new \<and> v \<notin> V}"
proof (induction new arbitrary: q)
  case Nil
  then show ?case by simp
next
  case (Cons x rest)
  define q' where "q' = (if x \<notin> V \<and> x \<notin> set (map fst q) \<and> should_visit_url x base
                         then q @ [(x, d + 1)] else q)"
  have "set (enqueue base V d rest q') \<subseteq> set q' \<union> {(v, d + 1) | v. v \<in> set rest \<and> v \<notin> V}"
    by (rule Cons.IH)
  moreover have "set q' \<subseteq> set q \<union> {(v, d + 1) | v. v \<in> set (x # rest) \<and> v \<notin> V}"
    by (auto simp: q'_def)
  moreover have "enqueue base V d (x # rest) q = enqueue base V d rest q'"
    by (simp add: q'_def)
  ultimately show ?case by auto
qed

lemma enqueue_distinct:
  "distinct (map fst q) \<Longrightarrow> distinct (map fst (enqueue base V d new q))"
proof (induction new arbitrary: q)
  case Nil
  then show ?case by simp
next
  case (Cons x rest)
  define q' where "q' = (if x \<notin> V \<and> x \<notin> set (map fst q) \<and> should_visit_url x base
                         then q @ [(x, d + 1)] else q)"
  have "distinct (map fst q')"
    using Cons.prems by (auto simp: q'_def)
  then have "distinct (map fst (enqueue base V d rest q'))"
    by (rule Cons.IH)
  then show ?case by (simp add: q'_def)
qed

lemma enqueue_fresh:
  "fst ` set q \<inter> V = {} \<Longrightarrow> fst ` set (enqueue base V d new q) \<inter> V = {}"
  using enqueue_set [of base V d new q] by fastforce

lemma depth_in_batch_unique:
  "distinct (map fst batch) \<Longrightarrow> (u, d) \<in> set batch \<Longrightarrow> depth_in_batch batch u = d"
  unfolding depth_in_batch_def
  by (induction batch) (auto simp: rev_image_eqI split: list.splits)

subsection \<open>Link chains\<close>

lemma link_chain_mono:
  assumes "link_chain cfg pgs s u d" and "\<And>k v. map_of pgs k = Some v \<Longrightarrow> map_of pgs' k = Some v"
  shows "link_chain cfg pgs' s u d"
  using assms by (induction rule: link_chain.induct) (auto intro: link_chain.intros)

lemma link_chain_depth:
  "link_chain cfg pgs s u d \<Longrightarrow> (u = s \<and> d = 0) \<or> (1 \<le> d \<and> d \<le> max_depth cfg)"
  by (induction rule: link_chain.induct) auto

subsection \<open>The invariant, piece by piece\<close>

lemma crawl_invI:
  assumes "distinct pending" and "set pending \<subseteq> visited_urls st"
    and "fst ` set (pages_data st) \<subseteq> visited_urls st - set pending"
    and "fst ` set (error_urls st) \<subseteq> visited_urls st - set pending"
    and "fst ` set (pages_data st) \<inter> fst ` set (error_urls st) = {}"
    and "distinct (map fst (pages_data st))" and "distinct (map fst (error_urls st))"
    and "distinct (map fst (calls st))" and "fst ` set (calls st) = visited_urls st"
    and "distinct (map fst (urls_to_visit st))"
    and "fst ` set (urls_to_visit st) \<inter> visited_urls st = {}"
    and "\<And>e. e \<in> set (urls_to_visit st) \<Longrightarrow> link_chain cfg (pages_data st) s (fst e) (snd e)"
    and "\<And>e. e \<in> set (calls st) \<Longrightarrow> link_chain cfg (pages_data st) s (fst e) (snd e)"
  shows "crawl_inv cfg s pending st"
  unfolding crawl_inv_def using assms by (simp add: ball_Un)

lemma crawl_invD:
  assumes "crawl_inv cfg s pending st"
  shows "distinct pending" and "set pending \<subseteq> visited_urls st"
    and "fst ` set (pages_data st) \<subseteq> visited_urls st - set pending"
    and "fst ` set (error_urls st) \<subseteq> visited_urls st - set pending"
    and "fst ` set (pages_data st) \<inter> fst ` set (error_urls st) = {}"
    and "distinct (map fst (pages_data st))" and "distinct (map fst (error_urls st))"
    and "distinct (map fst (calls st))" and "fst ` set (calls st) = visited_urls st"
    and "distinct (map fst (urls_to_visit st))"
    and "fst ` set (urls_to_visit st) \<inter> visited_urls st = {}"
  using assms unfolding crawl_inv_def by simp_all

lemma crawl_inv_chain:
  assumes "crawl_inv cfg s pending st" and "e \<in> set (urls_to_visit st) \<or> e \<in> set (calls st)"
  shows "link_chain cfg (pages_data st) s (fst e) (snd e)"
  using assms unfolding crawl_inv_def by (auto simp: ball_Un)

subsection \<open>One result\<close>

lemma handle_result_error:
  "handle_result cfg base batch (u, None, [], Some msg) st =
     (if msg \<noteq> [] then st\<lparr>error_urls := AList.update u msg (error_urls st)\<rparr> else st)"
  by simp

lemma handle_result_page:
  "handle_result cfg base batch (u, Some pd, new, None) st =
     (st\<lparr>pages_data := AList.update u pd (pages_data st),
         site_structure_var :=
           AList.update u (filter (\<lambda>link. startswith link base) (internal_links pd))
             (site_structure_var st),
         urls_to_visit :=
           (if depth_in_batch batch u < max_depth cfg
            then enqueue base (visited_urls st) (depth_in_batch batch u) new (urls_to_visit st)
            else urls_to_visit st)\<rparr>)"
  by (simp add: Let_def)

lemma crawl_inv_drop_pending:
  assumes "crawl_inv cfg s (u # pending) st"
  shows "crawl_inv cfg s pending st"
proof (rule crawl_invI)
  show "distinct pending" "set pending \<subseteq> visited_urls st"
    using crawl_invD(1,2) [OF assms] by simp_all
  show "fst ` set (pages_data st) \<subseteq> visited_urls st - set pending"
    using crawl_invD(3) [OF assms] by auto
  show "fst ` set (error_urls st) \<subseteq> visited_urls st - set pending"
    using crawl_invD(4) [OF assms] by auto
qed (use crawl_invD [OF assms] crawl_inv_chain [OF assms] in simp_all)

lemma crawl_inv_error:
  assumes "crawl_inv cfg s (u # pending) st"
  shows "crawl_inv cfg s pending (st\<lparr>error_urls := AList.update u msg (error_urls st)\<rparr>)"
proof (rule crawl_invI)
  note D = crawl_invD [OF assms]
  show "distinct pending" using D(1) by simp
  show "set pending \<subseteq> visited_urls (st\<lparr>error_urls := AList.update u msg (error_urls st)\<rparr>)"
    using D(2) by simp
  show "fst ` set (pages_data (st\<lparr>error_urls := AList.update u msg (error_urls st)\<rparr>))
        \<subseteq> visited_urls (st\<lparr>error_urls := AList.update u msg (error_urls st)\<rparr>) - set pending"
    using D(3) by auto
  show "fst ` set (error_urls (st\<lparr>error_urls := AList.update u msg (error_urls st)\<rparr>))
        \<subseteq> visited_urls (st\<lparr>error_urls := AList.update u msg (error_urls st)\<rparr>) - set pending"
    using D(1,2,4) by (auto simp: AList.dom_update)
  show "fst ` set (pages_data (st\<lparr>error_urls := AList.update u msg (error_urls st)\<rparr>))
        \<inter> fst ` set (error_urls (st\<lparr>error_urls := AList.update u msg (error_urls st)\<rparr>)) = {}"
    using D(3,5) by (auto simp: AList.dom_update)
  show "distinct (map fst (error_urls (st\<lparr>error_urls := AList.update u msg (error_urls st)\<rparr>)))"
    using D(7) by (simp add: AList.distinct_update)
qed (use crawl_invD [OF assms] crawl_inv_chain [OF assms] in simp_all)

lemma crawl_inv_page:
  assumes inv: "crawl_inv cfg s (u # pending) st"
    and dep: "(u, depth_in_batch batch u) \<in> set (calls st)"
  shows "crawl_inv cfg s pending (handle_result cfg base batch (u, Some pd, internal_links pd, None) st)"
proof -
  note D = crawl_invD [OF inv]
  define dp where "dp = depth_in_batch batch u"
  define pgs' where "pgs' = AList.update u pd (pages_data st)"
  define q' where "q' = (if dp < max_depth cfg
      then enqueue base (visited_urls st) dp (internal_links pd) (urls_to_visit st)
      else urls_to_visit st)"
  define st' where "st' = handle_result cfg base batch (u, Some pd, internal_links pd, None) st"
  have sel: "pages_data st' = pgs'" "urls_to_visit st' = q'" "visited_urls st' = visited_urls st"
    "calls st' = calls st" "error_urls st' = error_urls st"
    by (simp_all add: st'_def pgs'_def q'_def dp_def Let_def)
  have fresh: "u \<notin> fst ` set (pages_data st)" "u \<notin> fst ` set (error_urls st)"
    using D(3,4) by auto
  have upend: "u \<notin> set pending" "u \<in> visited_urls st"
    using D(1,2) by auto
  have keys: "fst ` set pgs' = insert u (fst ` set (pages_data st))"
    by (simp add: pgs'_def AList.dom_update)
  have ext: "\<And>k v. map_of (pages_data st) k = Some v \<Longrightarrow> map_of pgs' k = Some v"
    unfolding pgs'_def using fresh(1) by (rule map_of_update_fresh)
  have here: "map_of pgs' u = Some pd"
    by (simp add: pgs'_def AList.update_conv')
  have old: "link_chain cfg pgs' s (fst e) (snd e)"
    if "e \<in> set (urls_to_visit st) \<or> e \<in> set (calls st)" for e
    using crawl_inv_chain [OF inv that] ext by (rule link_chain_mono)
  have new: "link_chain cfg pgs' s (fst e) (snd e)" if "e \<in> set q'" for e
  proof (cases "e \<in> set (urls_to_visit st)")
    case True
    then show ?thesis using old by simp
  next
    case False
    with that have lt: "dp < max_depth cfg"
      and "e \<in> set (enqueue base (visited_urls st) dp (internal_links pd) (urls_to_visit st))"
      by (auto simp: q'_def split: if_splits)
    with False enqueue_set [of base "visited_urls st" dp "internal_links pd" "urls_to_visit st"]
    obtain v where e: "e = (v, dp + 1)" and v: "v \<in> set (internal_links pd)"
      by auto
    from dep have "link_chain cfg pgs' s (fst (u, dp)) (snd (u, dp))"
      unfolding dp_def by (intro old) simp
    then have "link_chain cfg pgs' s u dp" by simp
    then have "link_chain cfg pgs' s v (dp + 1)"
      using lt here v by (rule chain_link)
    then show ?thesis by (simp add: e)
  qed
  have q_distinct: "distinct (map fst q')"
    using D(10) unfolding q'_def by (simp add: enqueue_distinct)
  have q_fresh: "fst ` set q' \<inter> visited_urls st = {}"
    using D(11) unfolding q'_def by (simp add: enqueue_fresh)
  have "crawl_inv cfg s pending st'"
  proof (rule crawl_invI)
    show "distinct pending" using D(1) by simp
    show "set pending \<subseteq> visited_urls st'" using D(2) by (simp add: sel)
    show "fst ` set (pages_data st') \<subseteq> visited_urls st' - set pending"
      unfolding sel keys using D(3) upend by auto
    show "fst ` set (error_urls st') \<subseteq> visited_urls st' - set pending"
      unfolding sel using D(4) by auto
    show "fst ` set (pages_data st') \<inter> fst ` set (error_urls st') = {}"
      unfolding sel keys using D(5) fresh by auto
    show "distinct (map fst (pages_data st'))"
      unfolding sel pgs'_def using D(6) by (rule AList.distinct_update)
    show "distinct (map fst (error_urls st'))" unfolding sel by (rule D(7))
    show "distinct (map fst (calls st'))" unfolding sel by (rule D(8))
    show "fst ` set (calls st') = visited_urls st'" unfolding sel by (rule D(9))
    show "distinct (map fst (urls_to_visit st'))" unfolding sel by (rule q_distinct)
    show "fst ` set (urls_to_visit st') \<inter> visited_urls st' = {}" unfolding sel by (rule q_fresh)
    show "link_chain cfg (pages_data st') s (fst e) (snd e)" if "e \<in> set (urls_to_visit st')" for e
      using that unfolding sel by (rule new)
    show "link_chain cfg (pages_data st') s (fst e) (snd e)" if "e \<in> set (calls st')" for e
      using that unfolding sel by (intro old) simp
  qed
  then show ?thesis by (simp add: st'_def)
qed

lemma handle_result_inv:
  assumes "crawl_inv cfg s (u # pending) st"
    and "(u, depth_in_batch batch u) \<in> set (calls st)"
  shows "crawl_inv cfg s pending (handle_result cfg base batch (process_url W n u d base) st)"
  using process_url_cases [of W n u d base]
proof (elim disjE exE)
  fix msg
  assume eq: "process_url W n u d base = (u, None, [], Some msg)"
  show ?thesis
  proof (cases "msg = []")
    case True
    then have "handle_result cfg base batch (process_url W n u d base) st = st"
      unfolding eq handle_result_error by simp
    then show ?thesis
      using crawl_inv_drop_pending [OF assms(1)] by (simp only:)
  next
    case False
    then have "handle_result cfg base batch (process_url W n u d base) st =
        st\<lparr>error_urls := AList.update u msg (error_urls st)\<rparr>"
      unfolding eq handle_result_error by simp
    then show ?thesis
      using crawl_inv_error [OF assms(1), of msg] by (simp only:)
  qed
next
  fix pd
  assume eq: "process_url W n u d base = (u, Some pd, internal_links pd, None)"
  show ?thesis
    unfolding eq by (rule crawl_inv_page [OF assms])
qed

lemma handle_result_calls [simp]:
  "calls (handle_result cfg base batch r st) = calls st"
  by (cases r) (auto simp: Let_def split: option.splits)

lemma handle_result_visited [simp]:
  "visited_urls (handle_result cfg base batch r st) = visited_urls st"
  by (cases r) (auto simp: Let_def split: option.splits)

lemma handle_result_pages_mono:
  "length (pages_data st) \<le> length (pages_data (handle_result cfg base batch r st))"
  by (cases r) (auto simp: Let_def length_update split: option.splits)

lemma handle_result_progress:
  assumes "crawl_inv cfg s (u # pending) st"
  shows "length (pages_data st) < length (pages_data (handle_result cfg base batch (process_url W n u d base) st))
       \<or> (pages_data (handle_result cfg base batch (process_url W n u d base) st) = pages_data st
          \<and> urls_to_visit (handle_result cfg base batch (process_url W n u d base) st) = urls_to_visit st)"
  using process_url_cases [of W n u d base]
proof (elim disjE exE)
  fix msg
  assume eq: "process_url W n u d base = (u, None, [], Some msg)"
  show ?thesis unfolding eq by simp
next
  fix pd
  assume eq: "process_url W n u d base = (u, Some pd, internal_links pd, None)"
  have "u \<notin> fst ` set (pages_data st)"
    using crawl_invD(3) [OF assms] by auto
  then show ?thesis unfolding eq by (simp add: Let_def length_update)
qed

subsection \<open>The results of one batch\<close>

lemma fold_results_inv:
  assumes "crawl_inv cfg s (map (\<lambda>it. fst (snd it)) its) st"
    and "\<And>u. u \<in> set (map (\<lambda>it. fst (snd it)) its) \<Longrightarrow> (u, depth_in_batch batch u) \<in> set (calls st)"
  shows "crawl_inv cfg s []
           (fold (handle_result cfg base batch)
              (map (\<lambda>(i, (u, depth)). process_url W (n + i) u depth base) its) st)"
  using assms
proof (induction its arbitrary: st)
  case Nil
  then show ?case by simp
next
  case (Cons it its)
  obtain i u d where it: "it = (i, u, d)" by (cases it) auto
  let ?st = "handle_result cfg base batch (process_url W (n + i) u d base) st"
  have inv: "crawl_inv cfg s (u # map (\<lambda>it. fst (snd it)) its) st"
    using Cons.prems(1) by (simp add: it)
  have dep: "(u, depth_in_batch batch u) \<in> set (calls st)"
    using Cons.prems(2) [of u] by (simp add: it)
  have "crawl_inv cfg s (map (\<lambda>it. fst (snd it)) its) ?st"
    using inv dep by (rule handle_result_inv)
  moreover have "(v, depth_in_batch batch v) \<in> set (calls ?st)"
    if "v \<in> set (map (\<lambda>it. fst (snd it)) its)" for v
    using Cons.prems(2) [of v] that by simp
  ultimately have "crawl_inv cfg s []
     (fold (handle_result cfg base batch)
        (map (\<lambda>(i, (u, depth)). process_url W (n + i) u depth base) its) ?st)"
    by (rule Cons.IH)
  then show ?case by (simp add: it)
qed

lemma fold_results_pages_mono:
  "length (pages_data st) \<le> length (pages_data (fold (handle_result cfg base batch) rs st))"
proof (induction rs arbitrary: st)
  case Nil
  then show ?case by simp
next
  case (Cons r rs)
  have "length (pages_data st) \<le> length (pages_data (handle_result cfg base batch r st))"
    by (rule handle_result_pages_mono)
  also have "\<dots> \<le> length (pages_data (fold (handle_result cfg base batch) rs (handle_result cfg base batch r st)))"
    by (rule Cons.IH)
  finally show ?case by simp
qed

lemma fold_results_progress:
  assumes "crawl_inv cfg s (map (\<lambda>it. fst (snd it)) its) st"
    and "\<And>u. u \<in> set (map (\<lambda>it. fst (snd it)) its) \<Longrightarrow> (u, depth_in_batch batch u) \<in> set (calls st)"
  shows "length (pages_data st)
           < length (pages_data (fold (handle_result cfg base batch)
                (map (\<lambda>(i, (u, depth)). process_url W (n + i) u depth base) its) st))
       \<or> (pages_data (fold (handle_result cfg base batch)
                (map (\<lambda>(i, (u, depth)). process_url W (n + i) u depth base) its) st) = pages_data st
          \<and> urls_to_visit (fold (handle_result cfg base batch)
                (map (\<lambda>(i, (u, depth)). process_url W (n + i) u depth base) its) st) = urls_to_visit st)"
  using assms
proof (induction its arbitrary: st)
  case Nil
  then show ?case by simp
next
  case (Cons it its)
  obtain i u d where it: "it = (i, u, d)" by (cases it) auto
  let ?st = "handle_result cfg base batch (process_url W (n + i) u d base) st"
  let ?rs = "map (\<lambda>(i, (u, depth)). process_url W (n + i) u depth base) its"
  let ?fin = "fold (handle_result cfg base batch) ?rs ?st"
  have inv: "crawl_inv cfg s (u # map (\<lambda>it. fst (snd it)) its) st"
    using Cons.prems(1) by (simp add: it)
  have step: "length (pages_data st) < length (pages_data ?st)
       \<or> (pages_data ?st = pages_data st \<and> urls_to_visit ?st = urls_to_visit st)"
    using inv by (rule handle_result_progress)
  have mono: "length (pages_data ?st) \<le> length (pages_data ?fin)"
    by (rule fold_results_pages_mono)
  have dep: "(u, depth_in_batch batch u) \<in> set (calls st)"
    using Cons.prems(2) [of u] by (simp add: it)
  have inv': "crawl_inv cfg s (map (\<lambda>it. fst (snd it)) its) ?st"
    using inv dep by (rule handle_result_inv)
  have dep': "(v, depth_in_batch batch v) \<in> set (calls ?st)"
    if "v \<in> set (map (\<lambda>it. fst (snd it)) its)" for v
    using Cons.prems(2) [of v] that by simp
  from inv' dep'
  have rest: "length (pages_data ?st) < length (pages_data ?fin)
       \<or> (pages_data ?fin = pages_data ?st \<and> urls_to_visit ?fin = urls_to_visit ?st)"
    by (rule Cons.IH)
  have "length (pages_data st) < length (pages_data ?fin)
       \<or> (pages_data ?fin = pages_data st \<and> urls_to_visit ?fin = urls_to_visit st)"
    using step mono rest by auto
  then show ?case by (simp add: it)
qed

subsection \<open>One pass of the loop\<close>

lemma crawl_round_unfold:
  "crawl_round cfg W base st =
     fold (handle_result cfg base (take (nat (max_concurrent_requests cfg)) (urls_to_visit st)))
       (map (\<lambda>(i, (u, depth)). process_url W (length (calls st) + i) u depth base)
          (enumerate 0 (dispatched cfg base st)))
       (after_dispatch cfg base st)"
  by (simp add: crawl_round_def Let_def dispatched_def after_dispatch_def
      create_tasks_visited [symmetric])

lemma take_drop_keys_disjoint:
  assumes "distinct (map fst q)"
  shows "fst ` set (take k q) \<inter> fst ` set (drop k q) = {}"
proof -
  have "distinct (map fst (take k q) @ map fst (drop k q))"
    using assms by (simp add: map_append [symmetric] del: map_append)
  then show ?thesis by auto
qed

lemma after_dispatch_inv:
  assumes inv: "crawl_inv cfg s [] st"
  shows "crawl_inv cfg s (map fst (dispatched cfg base st)) (after_dispatch cfg base st)"
proof (rule crawl_invI)
  note D = crawl_invD [OF inv]
  let ?k = "nat (max_concurrent_requests cfg)"
  let ?T = "dispatched cfg base st"
  have sub: "set ?T \<subseteq> set (take ?k (urls_to_visit st))"
    unfolding dispatched_def by (rule create_tasks_subset)
  have fresh: "fst ` set ?T \<inter> visited_urls st = {}"
    unfolding dispatched_def by (rule create_tasks_fresh)
  show "distinct (map fst ?T)"
    unfolding dispatched_def by (rule create_tasks_distinct)
  show "set (map fst ?T) \<subseteq> visited_urls (after_dispatch cfg base st)"
    by (auto simp: after_dispatch_def)
  show "fst ` set (pages_data (after_dispatch cfg base st))
        \<subseteq> visited_urls (after_dispatch cfg base st) - set (map fst ?T)"
    using D(3) fresh by (auto simp: after_dispatch_def)
  show "fst ` set (error_urls (after_dispatch cfg base st))
        \<subseteq> visited_urls (after_dispatch cfg base st) - set (map fst ?T)"
    using D(4) fresh by (auto simp: after_dispatch_def)
  show "fst ` set (pages_data (after_dispatch cfg base st))
        \<inter> fst ` set (error_urls (after_dispatch cfg base st)) = {}"
    using D(5) by (simp add: after_dispatch_def)
  show "distinct (map fst (pages_data (after_dispatch cfg base st)))"
    using D(6) by (simp add: after_dispatch_def)
  show "distinct (map fst (error_urls (after_dispatch cfg base st)))"
    using D(7) by (simp add: after_dispatch_def)
  show "distinct (map fst (calls (after_dispatch cfg base st)))"
    using D(8,9) fresh \<open>distinct (map fst ?T)\<close> by (auto simp: after_dispatch_def)
  show "fst ` set (calls (after_dispatch cfg base st)) = visited_urls (after_dispatch cfg base st)"
    using D(9) by (auto simp: after_dispatch_def)
  show "distinct (map fst (urls_to_visit (after_dispatch cfg base st)))"
    using D(10) by (simp add: after_dispatch_def drop_map [symmetric])
  have "fst ` set (drop ?k (urls_to_visit st)) \<inter> visited_urls st = {}"
    using D(11) set_drop_subset [of ?k "urls_to_visit st"] by auto
  moreover have "fst ` set (drop ?k (urls_to_visit st)) \<inter> fst ` set ?T = {}"
    using take_drop_keys_disjoint [OF D(10), of ?k] sub by auto
  ultimately show "fst ` set (urls_to_visit (after_dispatch cfg base st))
        \<inter> visited_urls (after_dispatch cfg base st) = {}"
    by (auto simp: after_dispatch_def)
  show "link_chain cfg (pages_data (after_dispatch cfg base st)) s (fst e) (snd e)"
    if "e \<in> set (urls_to_visit (after_dispatch cfg base st))" for e
  proof -
    from that have "e \<in> set (urls_to_visit st)"
      using set_drop_subset [of ?k "urls_to_visit st"] by (auto simp: after_dispatch_def)
    then show ?thesis
      using crawl_inv_chain [OF inv, of e] by (simp add: after_dispatch_def)
  qed
  show "link_chain cfg (pages_data (after_dispatch cfg base st)) s (fst e) (snd e)"
    if "e \<in> set (calls (after_dispatch cfg base st))" for e
  proof -
    from that sub have "e \<in> set (urls_to_visit st) \<or> e \<in> set (calls st)"
      using set_take_subset [of ?k "urls_to_visit st"] by (auto simp: after_dispatch_def)
    then show ?thesis
      using crawl_inv_chain [OF inv, of e] by (simp add: after_dispatch_def)
  qed
qed

lemma after_dispatch_depth:
  assumes inv: "crawl_inv cfg s [] st" and u: "u \<in> set (map fst (dispatched cfg base st))"
  shows "(u, depth_in_batch (take (nat (max_concurrent_requests cfg)) (urls_to_visit st)) u)
           \<in> set (calls (after_dispatch cfg base st))"
proof -
  let ?batch = "take (nat (max_concurrent_requests cfg)) (urls_to_visit st)"
  from u obtain d where ud: "(u, d) \<in> set (dispatched cfg base st)" by auto
  then have "(u, d) \<in> set ?batch"
    unfolding dispatched_def using create_tasks_subset by blast
  moreover have "distinct (map fst ?batch)"
    using crawl_invD(10) [OF inv] by (simp add: take_map [symmetric])
  ultimately have "depth_in_batch ?batch u = d"
    by (intro depth_in_batch_unique)
  with ud show ?thesis by (simp add: after_dispatch_def)
qed

lemma crawl_round_inv:
  assumes inv: "crawl_inv cfg s [] st"
  shows "crawl_inv cfg s [] (crawl_round cfg W base st)"
  unfolding crawl_round_unfold
proof (rule fold_results_inv)
  show "crawl_inv cfg s (map (\<lambda>it. fst (snd it)) (enumerate 0 (dispatched cfg base st)))
          (after_dispatch cfg base st)"
    using after_dispatch_inv [OF inv, of base]
    by (simp flip: map_map comp_def [of fst snd])
  show "(u, depth_in_batch (take (nat (max_concurrent_requests cfg)) (urls_to_visit st)) u)
          \<in> set (calls (after_dispatch cfg base st))"
    if "u \<in> set (map (\<lambda>it. fst (snd it)) (enumerate 0 (dispatched cfg base st)))" for u
  proof -
    from that have "u \<in> set (map fst (dispatched cfg base st))"
      by (simp flip: map_map comp_def [of fst snd])
    with inv show ?thesis by (rule after_dispatch_depth)
  qed
qed

lemma crawl_round_progress:
  assumes inv: "crawl_inv cfg s [] st"
    and k: "0 < max_concurrent_requests cfg" and q: "urls_to_visit st \<noteq> []"
  shows "length (pages_data st) < length (pages_data (crawl_round cfg W base st))
       \<or> (length (pages_data (crawl_round cfg W base st)) = length (pages_data st)
          \<and> length (urls_to_visit (crawl_round cfg W base st)) < length (urls_to_visit st))"
proof -
  let ?batch = "take (nat (max_concurrent_requests cfg)) (urls_to_visit st)"
  let ?its = "enumerate 0 (dispatched cfg base st)"
  let ?st1 = "after_dispatch cfg base st"
  have inv1: "crawl_inv cfg s (map (\<lambda>it. fst (snd it)) ?its) ?st1"
    using after_dispatch_inv [OF inv, of base]
    by (simp flip: map_map comp_def [of fst snd])
  have dep1: "(u, depth_in_batch ?batch u) \<in> set (calls ?st1)"
    if "u \<in> set (map (\<lambda>it. fst (snd it)) ?its)" for u
  proof -
    from that have "u \<in> set (map fst (dispatched cfg base st))"
      by (simp flip: map_map comp_def [of fst snd])
    with inv show ?thesis by (rule after_dispatch_depth)
  qed
  have "length (pages_data ?st1) < length (pages_data (crawl_round cfg W base st))
       \<or> (pages_data (crawl_round cfg W base st) = pages_data ?st1
          \<and> urls_to_visit (crawl_round cfg W base st) = urls_to_visit ?st1)"
    unfolding crawl_round_unfold using inv1 dep1 by (rule fold_results_progress)
  moreover have "pages_data ?st1 = pages_data st"
    by (simp add: after_dispatch_def)
  moreover have "length (urls_to_visit ?st1) < length (urls_to_visit st)"
    using k q by (simp add: after_dispatch_def)
  ultimately show ?thesis by auto
qed

subsection \<open>Reachable states\<close>

lemma initial_inv: "crawl_inv cfg s [] (initial_state s)"
  by (rule crawl_invI) (auto simp: initial_state_def intro: chain_seed)

lemma reachable_inv:
  "reachable cfg W base s st \<Longrightarrow> crawl_inv cfg s [] st"
  by (induction rule: reachable.induct) (auto intro: initial_inv crawl_round_inv)

lemma crawl_loop_reachable:
  assumes run: "crawl_loop cfg W base st = Some st'" and r: "reachable cfg W base s st"
  shows "reachable cfg W base s st'
       \<and> \<not> (urls_to_visit st' \<noteq> [] \<and> int (length (pages_data st')) < max_pages cfg)"
proof -
  from run have "reachable cfg W base s st \<longrightarrow>
      reachable cfg W base s st'
       \<and> \<not> (urls_to_visit st' \<noteq> [] \<and> int (length (pages_data st')) < max_pages cfg)"
  proof (rule crawl_loop.raw_induct [rotated])
    fix loop :: "WebsiteCrawler \<Rightarrow> world \<Rightarrow> string \<Rightarrow> crawl_state \<Rightarrow> crawl_state option"
      and cfg W base st st'
    assume IH: "\<And>cfg W base st st'. loop cfg W base st = Some st' \<Longrightarrow>
        reachable cfg W base s st \<longrightarrow>
        reachable cfg W base s st'
         \<and> \<not> (urls_to_visit st' \<noteq> [] \<and> int (length (pages_data st')) < max_pages cfg)"
      and body: "(if urls_to_visit st \<noteq> [] \<and> int (length (pages_data st)) < max_pages cfg
        then loop cfg W base (crawl_round cfg W base st) else Some st) = Some st'"
    show "reachable cfg W base s st \<longrightarrow>
        reachable cfg W base s st'
         \<and> \<not> (urls_to_visit st' \<noteq> [] \<and> int (length (pages_data st')) < max_pages cfg)"
    proof (cases "urls_to_visit st \<noteq> [] \<and> int (length (pages_data st)) < max_pages cfg")
      case True
      with body have "loop cfg W base (crawl_round cfg W base st) = Some st'" by simp
      from IH [OF this] True show ?thesis
        by (auto intro: reachable_round)
    next
      case False
      with body have "st' = st" by auto
      with False show ?thesis by auto
    qed
  qed
  with r show ?thesis by simp
qed

subsection \<open>Termination\<close>

lemma crawl_loop_terminates:
  assumes k: "0 < max_concurrent_requests cfg" and inv: "crawl_inv cfg s [] st"
  shows "\<exists>st'. crawl_loop cfg W base st = Some st'"
proof -
  define m where
    "m = (\<lambda>st :: crawl_state. (nat (max_pages cfg - int (length (pages_data st))), length (urls_to_visit st)))"
  have wfm: "wf (inv_image (less_than <*lex*> less_than) m)"
    by (intro wf_inv_image wf_lex_prod wf_less_than)
  from wfm show ?thesis
    using inv
  proof (induction st rule: wf_induct_rule)
    case (less st)
    show ?case
    proof (cases "urls_to_visit st \<noteq> [] \<and> int (length (pages_data st)) < max_pages cfg")
      case False
      then show ?thesis by (subst crawl_loop.simps) auto
    next
      case True
      let ?st = "crawl_round cfg W base st"
      have inv': "crawl_inv cfg s [] ?st"
        using less.prems by (rule crawl_round_inv)
      have "length (pages_data st) < length (pages_data ?st)
         \<or> (length (pages_data ?st) = length (pages_data st)
            \<and> length (urls_to_visit ?st) < length (urls_to_visit st))"
        using less.prems k True by (intro crawl_round_progress) simp_all
      with True have "(?st, st) \<in> inv_image (less_than <*lex*> less_than) m"
        by (auto simp: m_def)
      then have "\<exists>st'. crawl_loop cfg W base ?st = Some st'"
        using inv' by (rule less.IH)
      with True show ?thesis by (subst crawl_loop.simps) auto
    qed
  qed
qed

subsection \<open>The example run\<close>

lemma example_crawl_run:
  "crawl_run example_config example_world ''https://example.com/'' =
     Some (Inr (''https://example.com'', example_final))"
  by code_simp

lemma example_seed_parses: "urlparse example_world ''https://example.com/'' = Inr (''https'', ''example.com'')"
  by code_simp

subsection \<open>Runs\<close>

lemma crawl_run_reachable:
  assumes "crawl_run cfg W start_url = Some (Inr (base, st))"
  shows "reachable cfg W base start_url st"
proof -
  from assms obtain p where p: "urlparse W start_url = Inr p" and b: "base = base_url_of p"
    and run: "crawl_loop cfg W base (initial_state start_url) = Some st"
    by (auto simp: crawl_run_def split: sum.splits if_splits)
  from crawl_loop_reachable [OF run reachable_init] show ?thesis by simp
qed

lemma crawl_run_returns:
  assumes "urlparse W start_url = Inr p" and "1 \<le> max_concurrent_requests cfg"
  shows "\<exists>st. crawl_run cfg W start_url = Some (Inr (base_url_of p, st))"
proof -
  have pos: "0 < max_concurrent_requests cfg" using assms(2) by simp
  have "\<exists>st. crawl_loop cfg W (base_url_of p) (initial_state start_url) = Some st"
    by (rule crawl_loop_terminates [OF pos initial_inv])
  then obtain st where "crawl_loop cfg W (base_url_of p) (initial_state start_url) = Some st" ..
  with assms show ?thesis by (simp add: crawl_run_def)
qed

lemma crawl_round_zero:
  assumes "max_concurrent_requests cfg = 0"
  shows "crawl_round cfg W base st = st"
  using assms by (simp add: crawl_round_def)

lemma crawl_loop_stuck:
  assumes stay: "crawl_round cfg W base st = st"
    and cond: "urls_to_visit st \<noteq> [] \<and> int (length (pages_data st)) < max_pages cfg"
  shows "crawl_loop cfg W base st = None"
proof (rule ccontr)
  assume "crawl_loop cfg W base st \<noteq> None"
  then obtain y where run: "crawl_loop cfg W base st = Some y" by auto
  have "\<not> (cfg = cfg \<and> W = W \<and> base = base \<and> st = st)"
  proof (rule crawl_loop.raw_induct
      [where P = "\<lambda>c w b s y. \<not> (c = cfg \<and> w = W \<and> b = base \<and> s = st)", OF _ run])
    fix loop :: "WebsiteCrawler \<Rightarrow> world \<Rightarrow> string \<Rightarrow> crawl_state \<Rightarrow> crawl_state option"
      and c w b s z
    assume IH: "\<And>c w b s z. loop c w b s = Some z \<Longrightarrow> \<not> (c = cfg \<and> w = W \<and> b = base \<and> s = st)"
      and body: "(if urls_to_visit s \<noteq> [] \<and> int (length (pages_data s)) < max_pages c
        then loop c w b (crawl_round c w b s) else Some s) = Some z"
    show "\<not> (c = cfg \<and> w = W \<and> b = base \<and> s = st)"
    proof
      assume eq: "c = cfg \<and> w = W \<and> b = base \<and> s = st"
      with body cond stay have "loop cfg W base st = Some z" by simp
      from IH [OF this] show False by simp
    qed
  qed
  then show False by simp
qed

subsection \<open>More of the example run\<close>

lemma make_result_sel [simp]:
  "pages (make_result W base st) = pages_data st"
  "errors (make_result W base st) = error_urls st"
  "base_url (make_result W base st) = base"
  by (simp_all add: make_result_def)

lemma example_crawl:
  "crawl example_config example_world ''https://example.com/'' =
     Some (Inr (make_result example_world ''https://example.com'' example_final))"
  by (simp add: crawl_def example_crawl_run)

lemma example_final_pages:
  "map fst (pages_data example_final) =
     [''https://example.com/'', ''https://example.com/a'', ''https://example.com/b'',
      ''https://example.com/c'']"
  by code_simp

lemma example_final_errors: "error_urls example_final = []"
  by code_simp

lemma example_process_url:
  "process_url example_world 0 ''https://example.com/'' 0 ''https://example.com'' =
     (''https://example.com/'', Some example_page, internal_links example_page, None)"
  by code_simp

lemma example_fragment_seed:
  "urlparse example_world ''https://example.com/#top'' = Inr (''https'', ''example.com'')
   \<and> \<not> should_visit_url ''https://example.com/#top'' (base_url_of (''https'', ''example.com''))"
  by code_simp

section \<open>The claims\<close>

subsection \<open>Admission filter\<close>

text \<open>
  What \<^verbatim>\<open>_should_visit_url\<close> computes: it admits a URL exactly when the origin string
  is a prefix of the URL string, the URL contains no \<^verbatim>\<open>#\<close>, and the lowercased URL
  string, taken as a whole, ends with none of the 21 extensions of the deny list.
\<close>

lemma should_visit_url_iff:
  "should_visit_url u base \<longleftrightarrow>
      prefix base u \<and> CHR ''#'' \<notin> set u \<and> (\<forall>ext \<in> set skip_extensions. \<not> suffix ext (lower u))"
  by (auto simp: should_visit_url_def startswith_prefix endswith_suffix list_ex_iff)

text \<open>
  The extension is looked for at the end of the whole URL, not of its path: a query
  string after the extension hides it.
\<close>

lemma extension_before_query_admitted:
  "should_visit_url ''https://example.com/a.pdf?v=1'' ''https://example.com''"
  by code_simp

text \<open>
  C3 says that every URL whose scheme and host differ from the origin's is rejected,
  and the comment above the test says the same: only URLs from the same domain are
  visited. The test is \<^verbatim>\<open>url.startswith(base_url)\<close>. The host of
  \<^verbatim>\<open>https://example.com.evil.org/x\<close> is \<^verbatim>\<open>example.com.evil.org\<close>, not the host
  \<^verbatim>\<open>example.com\<close> of the origin \<^verbatim>\<open>https://example.com\<close>; the origin is a prefix of the
  URL, and the URL is admitted.
\<close>

theorem other_host_admitted:
  "startswith ''https://example.com.evil.org/x'' ''https://example.com''
   \<and> should_visit_url ''https://example.com.evil.org/x'' ''https://example.com'' = True"
  by code_simp

subsection \<open>Page budget\<close>

text \<open>
  What the loop does keep: a pass starts with fewer than \<open>max_pages\<close> pages and adds
  at most one page per task of its batch.
\<close>

lemma handle_result_pages_le:
  "length (pages_data (handle_result cfg base batch r st)) \<le> Suc (length (pages_data st))"
  by (cases r) (auto simp: Let_def length_update split: option.splits)

lemma fold_results_pages_le:
  "length (pages_data (fold (handle_result cfg base batch) rs st)) \<le> length (pages_data st) + length rs"
proof (induction rs arbitrary: st)
  case Nil
  then show ?case by simp
next
  case (Cons r rs)
  have "length (pages_data (fold (handle_result cfg base batch) rs (handle_result cfg base batch r st)))
      \<le> length (pages_data (handle_result cfg base batch r st)) + length rs"
    by (rule Cons.IH)
  also have "\<dots> \<le> Suc (length (pages_data st)) + length rs"
    using handle_result_pages_le [of cfg base batch r st] by simp
  finally show ?case by simp
qed

lemma crawl_round_pages_le:
  "length (pages_data (crawl_round cfg W base st))
     \<le> length (pages_data st) + nat (max_concurrent_requests cfg)"
proof -
  have "length (dispatched cfg base st) \<le> nat (max_concurrent_requests cfg)"
    unfolding dispatched_def
    using create_tasks_length [of base "take (nat (max_concurrent_requests cfg)) (urls_to_visit st)" "visited_urls st"]
    by simp
  moreover have "length (pages_data (crawl_round cfg W base st))
      \<le> length (pages_data (after_dispatch cfg base st)) + length (dispatched cfg base st)"
    unfolding crawl_round_unfold
    by (rule order_trans [OF fold_results_pages_le]) simp
  moreover have "pages_data (after_dispatch cfg base st) = pages_data st"
    by (simp add: after_dispatch_def)
  ultimately show ?thesis by simp
qed

lemma page_budget_overshoot:
  assumes "reachable cfg W base start_url st"
  shows "int (length (pages_data st))
           \<le> max 0 (max_pages cfg - 1 + int (nat (max_concurrent_requests cfg)))"
  using assms
proof (induction rule: reachable.induct)
  case reachable_init
  then show ?case by (simp add: initial_state_def)
next
  case (reachable_round st)
  from crawl_round_pages_le [of cfg W base st] reachable_round(3)
  show ?case by linarith
qed

text \<open>
  C1 says that the result never holds more than \<open>max_pages\<close> pages. The loop tests the
  budget only before a batch and then takes up to \<open>max_concurrent_requests\<close> URLs
  whatever is left of the budget. With a budget of 2 and batches of 10, the home page of
  the example site is collected in the first pass and its three pages in the second: the
  result holds 4 pages.
\<close>

theorem page_budget_exceeded:
  "max_pages example_config = 2
   \<and> max_concurrent_requests example_config = 10
   \<and> map_option (map_sum id (\<lambda>r. (map fst (pages r), total_pages_crawled (crawl_stats r))))
        (crawl example_config example_world ''https://example.com/'')
     = Some (Inr ([''https://example.com/'', ''https://example.com/a'',
                   ''https://example.com/b'', ''https://example.com/c''], 4))"
  by code_simp

subsection \<open>Failures of single URLs\<close>

text \<open>
  A response that is not HTML or has a status of 400 or more, and an exception with a
  non-empty message, leave an entry in \<open>error_urls\<close> and no page; an exception with
  an empty message leaves nothing.
\<close>

lemma response_failure_recorded:
  assumes "http_get W n u = Responds r"
    and "\<not> contains ''text/html'' (lower (case content_type r of None \<Rightarrow> [] | Some c \<Rightarrow> c))
         \<or> 400 \<le> status r"
  shows "u \<in> fst ` set (error_urls (handle_result cfg base batch (process_url W n u d base) st))
       \<and> pages_data (handle_result cfg base batch (process_url W n u d base) st) = pages_data st"
  using assms by (auto simp: process_url_def Let_def AList.dom_update)

lemma exception_recorded:
  assumes "http_get W n u = Raises msg" and "msg \<noteq> []"
  shows "map_of (error_urls (handle_result cfg base batch (process_url W n u d base) st)) u = Some msg
       \<and> pages_data (handle_result cfg base batch (process_url W n u d base) st) = pages_data st"
  using assms by (simp add: process_url_def AList.update_conv')

lemma silent_exception_dropped:
  assumes "http_get W n u = Raises []"
  shows "handle_result cfg base batch (process_url W n u d base) st = st"
  using assms by (simp add: process_url_def)

text \<open>
  C7 says that every exception of a fetch is recorded in \<open>errors\<close>. The loop stores the
  message only when \<^verbatim>\<open>if error:\<close> holds, and the empty string is false. A timeout of
  aiohttp raises \<^verbatim>\<open>asyncio.TimeoutError()\<close>, whose \<^verbatim>\<open>str\<close> is empty: the worker is
  called for the seed, and the run ends with no page and no error entry.
\<close>

theorem silent_exception_not_recorded:
  "http_get timeout_world 0 ''https://example.com/'' = Raises []
   \<and> map_option (map_sum id (\<lambda>(base, st). calls st))
        (crawl_run example_config timeout_world ''https://example.com/'')
     = Some (Inr [(''https://example.com/'', 0)])
   \<and> map_option (map_sum id (\<lambda>r. (pages r, errors r, total_errors (crawl_stats r))))
        (crawl example_config timeout_world ''https://example.com/'')
     = Some (Inr ([], [], 0))"
  by code_simp

subsection \<open>Load time\<close>

text \<open>
  C8, as the code has it. The load time stamped on a page is computed from two clock
  readings: the one before the request and the one taken once the response object is
  there, that is when the headers have arrived. It is their float difference, times
  1000 in float arithmetic, truncated to an integer. The body is read afterwards; the
  time at which it has been read does not enter.
\<close>

theorem load_time_is_time_to_headers:
  assumes "process_url W n u d base = (u', Some pd, new_urls, err)"
  shows "\<exists>r. http_get W n u = Responds r
           \<and> load_time_ms pd = py_int (round64 W (round64 W (t_headers r - t_request r) * 1000))"
  using assms
  by (auto simp: process_url_def Let_def split: outcome.splits if_splits)

theorem load_time_is_time_to_headers_witness:
  "\<exists>r. http_get example_world 0 ''https://example.com/'' = Responds r
       \<and> load_time_ms example_page
           = py_int (round64 example_world (round64 example_world (t_headers r - t_request r) * 1000))"
  using load_time_is_time_to_headers [OF example_process_url] .

text \<open>
  C8 as stated fails: the home page's headers arrive after one second and its body after
  three; the page is stamped 1000 ms, while request start to body read is 3000 ms.
\<close>

theorem load_time_counterexample:
  "http_get example_world 0 ''https://example.com/'' =
     Responds \<lparr>t_request = 0, t_headers = 1, t_body = 3,
               content_type = Some ''text/html; charset=utf-8'', status = 200, body = home_html\<rparr>
   \<and> process_url example_world 0 ''https://example.com/'' 0 ''https://example.com'' =
     (''https://example.com/'', Some example_page, internal_links example_page, None)
   \<and> load_time_ms example_page = 1000
   \<and> py_int (round64 example_world (round64 example_world (3 - 0) * 1000)) = 3000"
  by code_simp

subsection \<open>Configuration\<close>

text \<open>
  C5, as the code has it. The engine defines no configuration error and checks neither
  the seed nor the limits. An exception leaves \<^verbatim>\<open>crawl\<close> in two cases only, both raised
  by library calls before the loop and so before any request: the \<^verbatim>\<open>ValueError\<close> of
  \<^verbatim>\<open>urlparse\<close> for a seed that it refuses, and the \<^verbatim>\<open>ValueError\<close> of
  \<^verbatim>\<open>asyncio.Semaphore\<close> for a negative \<open>max_concurrent_requests\<close>. Whenever
  \<^verbatim>\<open>urlparse\<close> accepts the seed and \<open>max_concurrent_requests\<close> is at least 1, the run
  ends and the caller receives a result, whatever \<open>max_pages\<close> and \<open>max_depth\<close> are.
\<close>

theorem crawl_errors_and_returns:
  "(crawl cfg W start_url = Some (Inl e) \<longleftrightarrow>
      urlparse W start_url = Inl e
      \<or> ((\<exists>p. urlparse W start_url = Inr p) \<and> max_concurrent_requests cfg < 0
          \<and> e = ValueError ''Semaphore initial value must be >= 0''))
   \<and> ((\<exists>p. urlparse W start_url = Inr p) \<and> 1 \<le> max_concurrent_requests cfg
        \<longrightarrow> (\<exists>r. crawl cfg W start_url = Some (Inr r)))"
proof (intro conjI impI)
  show "crawl cfg W start_url = Some (Inl e) \<longleftrightarrow>
      urlparse W start_url = Inl e
      \<or> ((\<exists>p. urlparse W start_url = Inr p) \<and> max_concurrent_requests cfg < 0
          \<and> e = ValueError ''Semaphore initial value must be >= 0'')"
    by (cases "urlparse W start_url")
       (auto simp: crawl_def crawl_run_def split: if_splits)
next
  assume "(\<exists>p. urlparse W start_url = Inr p) \<and> 1 \<le> max_concurrent_requests cfg"
  then obtain p where "urlparse W start_url = Inr p" and "1 \<le> max_concurrent_requests cfg"
    by auto
  from crawl_run_returns [OF this] show "\<exists>r. crawl cfg W start_url = Some (Inr r)"
    by (auto simp: crawl_def)
qed

text \<open>
  The example configuration returns a result; with \<open>max_concurrent_requests = -1\<close> the
  semaphore's error leaves \<^verbatim>\<open>crawl\<close>.
\<close>

theorem crawl_errors_and_returns_witness:
  "(\<exists>r. crawl example_config example_world ''https://example.com/'' = Some (Inr r))
   \<and> crawl (example_config\<lparr>max_concurrent_requests := - 1\<rparr>) example_world ''https://example.com/''
       = Some (Inl (ValueError ''Semaphore initial value must be >= 0''))"
  using crawl_errors_and_returns [of example_config example_world "''https://example.com/''"]
    crawl_errors_and_returns [of "example_config\<lparr>max_concurrent_requests := - 1\<rparr>" example_world
      "''https://example.com/''" "ValueError ''Semaphore initial value must be >= 0''"]
    example_seed_parses
  by (simp add: example_config_def)

text \<open>
  C5 as stated fails: for the seed \<^verbatim>\<open>not a url\<close> nothing is raised, the origin becomes
  \<^verbatim>\<open>://\<close>, the seed is not admitted and an empty result is returned; and a budget of
  0 pages returns an empty result as well.
\<close>

theorem no_config_error_counterexample:
  "map_option (map_sum id (\<lambda>r. (base_url r, pages r, errors r)))
      (crawl example_config example_world ''not a url'') = Some (Inr (''://'', [], []))
   \<and> map_option (map_sum id (\<lambda>r. (pages r, errors r)))
      (crawl (example_config\<lparr>max_pages := 0\<rparr>) example_world ''https://example.com/'')
       = Some (Inr ([], []))"
  by code_simp

subsection \<open>A rejected seed\<close>

lemma crawl_round_rejected_seed:
  assumes "\<not> should_visit_url start_url base" and "1 \<le> max_concurrent_requests cfg"
  shows "crawl_round cfg W base (initial_state start_url) = (initial_state start_url)\<lparr>urls_to_visit := []\<rparr>"
proof -
  from assms(2) obtain m where "nat (max_concurrent_requests cfg) = Suc m"
    by (cases "nat (max_concurrent_requests cfg)") auto
  with assms(1) show ?thesis
    by (simp add: crawl_round_def initial_state_def)
qed

text \<open>
  C10, as the code has it. When \<^verbatim>\<open>urlparse\<close> accepts the seed, the admission filter
  rejects it and \<open>max_concurrent_requests\<close> is at least 1, the run ends without a single
  call of the fetch worker, and returns a result with no page and no error entry.
\<close>

theorem rejected_seed_empty_result:
  assumes "urlparse W start_url = Inr p"
    and "\<not> should_visit_url start_url (base_url_of p)"
    and "1 \<le> max_concurrent_requests cfg"
  shows "\<exists>st. crawl_run cfg W start_url = Some (Inr (base_url_of p, st))
           \<and> calls st = [] \<and> pages_data st = [] \<and> error_urls st = []
           \<and> crawl cfg W start_url = Some (Inr (make_result W (base_url_of p) st))
           \<and> pages (make_result W (base_url_of p) st) = []
           \<and> errors (make_result W (base_url_of p) st) = []"
proof -
  let ?b = "base_url_of p"
  let ?s0 = "initial_state start_url"
  let ?s1 = "?s0\<lparr>urls_to_visit := []\<rparr>"
  have stop: "crawl_loop cfg W ?b ?s1 = Some ?s1"
    by (subst crawl_loop.simps) simp
  have "crawl_loop cfg W ?b ?s0 = Some ?s0 \<or> crawl_loop cfg W ?b ?s0 = Some ?s1"
  proof (cases "urls_to_visit ?s0 \<noteq> [] \<and> int (length (pages_data ?s0)) < max_pages cfg")
    case True
    then have "crawl_loop cfg W ?b ?s0 = crawl_loop cfg W ?b (crawl_round cfg W ?b ?s0)"
      by (subst crawl_loop.simps) simp
    then show ?thesis
      using stop by (simp add: crawl_round_rejected_seed [OF assms(2,3)])
  next
    case False
    then have "crawl_loop cfg W ?b ?s0 = Some ?s0"
      by (subst crawl_loop.simps) auto
    then show ?thesis by simp
  qed
  then obtain st where run: "crawl_loop cfg W ?b ?s0 = Some st"
    and st: "st = ?s0 \<or> st = ?s1" by auto
  from st have "calls st = [] \<and> pages_data st = [] \<and> error_urls st = []"
    by (auto simp: initial_state_def)
  moreover from run assms(1,3) have cr: "crawl_run cfg W start_url = Some (Inr (?b, st))"
    by (simp add: crawl_run_def)
  moreover from cr have "crawl cfg W start_url = Some (Inr (make_result W ?b st))"
    by (simp add: crawl_def)
  ultimately show ?thesis by (auto simp: make_result_def)
qed

text \<open>
  The seed \<^verbatim>\<open>https://example.com/#top\<close> contains a fragment.
\<close>

theorem rejected_seed_empty_result_witness:
  "\<exists>st. crawl_run example_config example_world ''https://example.com/#top''
           = Some (Inr (base_url_of (''https'', ''example.com''), st))
         \<and> calls st = [] \<and> pages_data st = [] \<and> error_urls st = []
         \<and> crawl example_config example_world ''https://example.com/#top''
             = Some (Inr (make_result example_world (base_url_of (''https'', ''example.com'')) st))
         \<and> pages (make_result example_world (base_url_of (''https'', ''example.com'')) st) = []
         \<and> errors (make_result example_world (base_url_of (''https'', ''example.com'')) st) = []"
proof -
  have "1 \<le> max_concurrent_requests example_config"
    by (simp add: example_config_def)
  with example_fragment_seed show ?thesis
    by (intro rejected_seed_empty_result) simp_all
qed

text \<open>
  C10 as stated fails for \<open>max_concurrent_requests = 0\<close>: the batch
  \<^verbatim>\<open>urls_to_visit[:0]\<close> is empty and \<^verbatim>\<open>urls_to_visit[0:]\<close> is the whole frontier, so
  a pass changes nothing, the loop condition stays true, and the run never returns.
\<close>

theorem rejected_seed_counterexample:
  "\<not> should_visit_url ''https://example.com/#top'' ''https://example.com''
   \<and> crawl (example_config\<lparr>max_concurrent_requests := 0\<rparr>) example_world ''https://example.com/#top''
       = None"
proof -
  let ?cfg = "example_config\<lparr>max_concurrent_requests := 0\<rparr>"
  have "crawl_loop ?cfg example_world ''https://example.com'' (initial_state ''https://example.com/#top'') = None"
    by (rule crawl_loop_stuck)
       (simp_all add: crawl_round_zero initial_state_def example_config_def)
  moreover have "urlparse example_world ''https://example.com/#top'' = Inr (''https'', ''example.com'')"
    using example_fragment_seed by simp
  moreover have "\<not> should_visit_url ''https://example.com/#top'' ''https://example.com''"
    using example_fragment_seed by (simp add: base_url_of_def)
  ultimately show ?thesis
    by (simp add: crawl_def crawl_run_def base_url_of_def example_config_def)
qed

subsection \<open>No duplicate fetches\<close>

text \<open>
  C2. In the result of every run the keys of \<open>pages\<close> and \<open>errors\<close> are pairwise
  distinct across both mappings, and every one of them is a URL the fetch worker was
  called for. The worker is called at most once per URL: the log of its calls never
  repeats a URL. In every state the run passes through, the visited set is the set of
  URLs the worker was called for, the frontier holds no URL twice, and no URL of the
  frontier is visited: a visited URL is neither queued nor fetched again.
\<close>

theorem no_duplicate_fetches:
  assumes "crawl_run cfg W start_url = Some (Inr (base, st))"
  shows "crawl cfg W start_url = Some (Inr (make_result W base st))
       \<and> distinct (map fst (pages (make_result W base st)) @ map fst (errors (make_result W base st)))
       \<and> distinct (map fst (calls st))
       \<and> fst ` set (pages (make_result W base st)) \<union> fst ` set (errors (make_result W base st))
           \<subseteq> fst ` set (calls st)
       \<and> (\<forall>s. reachable cfg W base start_url s \<longrightarrow>
             distinct (map fst (calls s)) \<and> fst ` set (calls s) = visited_urls s
             \<and> distinct (map fst (urls_to_visit s))
             \<and> fst ` set (urls_to_visit s) \<inter> visited_urls s = {})"
proof (intro conjI allI impI)
  show "crawl cfg W start_url = Some (Inr (make_result W base st))"
    using assms by (simp add: crawl_def)
  have inv: "crawl_inv cfg start_url [] st"
    using assms by (intro reachable_inv crawl_run_reachable)
  note D = crawl_invD [OF inv]
  show "distinct (map fst (pages (make_result W base st)) @ map fst (errors (make_result W base st)))"
    using D(5,6,7) by simp
  show "distinct (map fst (calls st))" by (rule D(8))
  show "fst ` set (pages (make_result W base st)) \<union> fst ` set (errors (make_result W base st))
          \<subseteq> fst ` set (calls st)"
    using D(3,4,9) by auto
next
  fix s assume r: "reachable cfg W base start_url s"
  note D = crawl_invD [OF reachable_inv [OF r]]
  show "distinct (map fst (calls s))" by (rule D(8))
  show "fst ` set (calls s) = visited_urls s" by (rule D(9))
  show "distinct (map fst (urls_to_visit s))" by (rule D(10))
  show "fst ` set (urls_to_visit s) \<inter> visited_urls s = {}" by (rule D(11))
qed

text \<open>
  The run on the example site: four pages, no error, four calls.
\<close>

theorem no_duplicate_fetches_witness:
  "distinct (map fst (pages_data example_final) @ map fst (error_urls example_final))
   \<and> distinct (map fst (calls example_final))"
  using no_duplicate_fetches [OF example_crawl_run] by simp

subsection \<open>Depth bound\<close>

lemma handle_result_at_max_depth:
  assumes "max_depth cfg \<le> depth_in_batch batch u"
  shows "urls_to_visit (handle_result cfg base batch (u, pd, new, err) s) = urls_to_visit s"
  using assms by (cases pd) (simp_all add: Let_def)

text \<open>
  C6. Every page of the result was fetched by a call whose depth \<open>d\<close> is the length
  of a chain of links from the seed, through collected pages that each lie less than
  \<open>max_depth\<close> links from the seed. The page is the seed itself, at depth 0 and found
  through no link, or it was found through \<open>d\<close> links with \<open>1 \<le> d \<le> max_depth\<close>: no
  page was found through a chain of more than \<open>max_depth\<close> links, and for
  \<open>max_depth \<ge> 0\<close> the depth of every page is at most \<open>max_depth\<close>. The same holds of
  every entry of the frontier and every call in every state a run passes through. When
  the result of a page whose depth is \<open>max_depth\<close> or more is handled, the frontier is
  left as it is: its links are not enqueued.
\<close>

theorem depth_bound:
  assumes "crawl_run cfg W start_url = Some (Inr (base, st))"
  shows "(\<forall>u \<in> fst ` set (pages (make_result W base st)).
            \<exists>d. (u, d) \<in> set (calls st)
              \<and> link_chain cfg (pages (make_result W base st)) start_url u d
              \<and> (u = start_url \<and> d = 0 \<or> 1 \<le> d \<and> d \<le> max_depth cfg)
              \<and> (0 \<le> max_depth cfg \<longrightarrow> d \<le> max_depth cfg))
       \<and> (\<forall>s. reachable cfg W base start_url s \<longrightarrow>
             (\<forall>e \<in> set (urls_to_visit s) \<union> set (calls s).
                fst e = start_url \<and> snd e = 0 \<or> 1 \<le> snd e \<and> snd e \<le> max_depth cfg))
       \<and> (\<forall>batch u pd new err s.
             max_depth cfg \<le> depth_in_batch batch u \<longrightarrow>
             urls_to_visit (handle_result cfg base batch (u, pd, new, err) s) = urls_to_visit s)"
proof (intro conjI ballI allI impI)
  fix u assume u: "u \<in> fst ` set (pages (make_result W base st))"
  have inv: "crawl_inv cfg start_url [] st"
    using assms by (intro reachable_inv crawl_run_reachable)
  from u crawl_invD(3,9) [OF inv] have "u \<in> fst ` set (calls st)" by auto
  then obtain d where d: "(u, d) \<in> set (calls st)" by auto
  then have chain: "link_chain cfg (pages_data st) start_url u d"
    using crawl_inv_chain [OF inv, of "(u, d)"] by simp
  from link_chain_depth [OF chain] d chain
  show "\<exists>d. (u, d) \<in> set (calls st)
          \<and> link_chain cfg (pages (make_result W base st)) start_url u d
          \<and> (u = start_url \<and> d = 0 \<or> 1 \<le> d \<and> d \<le> max_depth cfg)
          \<and> (0 \<le> max_depth cfg \<longrightarrow> d \<le> max_depth cfg)"
    by auto
next
  fix s e
  assume r: "reachable cfg W base start_url s" and e: "e \<in> set (urls_to_visit s) \<union> set (calls s)"
  from e have "link_chain cfg (pages_data s) start_url (fst e) (snd e)"
    by (intro crawl_inv_chain [OF reachable_inv [OF r]]) simp
  then show "fst e = start_url \<and> snd e = 0 \<or> 1 \<le> snd e \<and> snd e \<le> max_depth cfg"
    by (rule link_chain_depth)
next
  fix batch u pd new err and s :: crawl_state
  assume "max_depth cfg \<le> depth_in_batch batch u"
  then show "urls_to_visit (handle_result cfg base batch (u, pd, new, err) s) = urls_to_visit s"
    by (rule handle_result_at_max_depth)
qed

text \<open>
  On the example site the page \<^verbatim>\<open>/a\<close> is found one link from the seed.
\<close>

theorem depth_bound_witness:
  "\<exists>d. (''https://example.com/a'', d) \<in> set (calls example_final)
       \<and> link_chain example_config (pages_data example_final) ''https://example.com/''
            ''https://example.com/a'' d
       \<and> (''https://example.com/a'' = ''https://example.com/'' \<and> d = 0
           \<or> 1 \<le> d \<and> d \<le> max_depth example_config)
       \<and> (0 \<le> max_depth example_config \<longrightarrow> d \<le> max_depth example_config)"
proof -
  have "''https://example.com/a'' \<in> set (map fst (pages_data example_final))"
    unfolding example_final_pages by simp
  then have "''https://example.com/a'' \<in> fst ` set (pages (make_result example_world ''https://example.com'' example_final))"
    by simp
  from bspec [OF depth_bound [OF example_crawl_run, THEN conjunct1] this]
  show ?thesis by (simp only: make_result_sel)
qed

subsection \<open>Dictionaries as mappings\<close>

lemma card_dom_map_of:
  assumes "distinct (map fst al)"
  shows "card (dom (map_of al)) = length al"
proof -
  have "card (dom (map_of al)) = card (set (map fst al))"
    by (simp add: dom_map_of_conv_image_fst)
  also have "\<dots> = length (map fst al)"
    using assms by (rule distinct_card)
  finally show ?thesis by simp
qed

lemma sum_list_values:
  fixes f :: "'v \<Rightarrow> 'a::comm_monoid_add"
  assumes "distinct (map fst al)"
  shows "sum_list (map f (map snd al)) = (\<Sum>k\<in>dom (map_of al). f (the (map_of al k)))"
  using assms
proof (induction al)
  case Nil
  then show ?case by simp
next
  case (Cons kv al)
  obtain k v where kv: "kv = (k, v)" by (cases kv)
  from Cons.prems have k: "k \<notin> dom (map_of al)" and d: "distinct (map fst al)"
    by (auto simp: kv dom_map_of_conv_image_fst)
  have "(\<Sum>x\<in>dom (map_of (kv # al)). f (the (map_of (kv # al) x)))
      = f v + (\<Sum>x\<in>dom (map_of al). f (the (map_of (kv # al) x)))"
    using k by (simp add: kv finite_dom_map_of)
  also have "(\<Sum>x\<in>dom (map_of al). f (the (map_of (kv # al) x)))
      = (\<Sum>x\<in>dom (map_of al). f (the (map_of al x)))"
    using k by (intro sum.cong) (auto simp: kv)
  also have "\<dots> = sum_list (map f (map snd al))"
    using Cons.IH [OF d] by simp
  finally show ?case by (simp add: kv)
qed

lemma length_filter_values:
  assumes "distinct (map fst al)"
  shows "length (filter P (map snd al)) = card {k \<in> dom (map_of al). P (the (map_of al k))}"
proof -
  have "length (filter P (map snd al)) = sum_list (map (\<lambda>x. if P x then 1 else 0) (map snd al))"
    by (induction al) auto
  also have "\<dots> = (\<Sum>k\<in>dom (map_of al). if P (the (map_of al k)) then 1 else 0)"
    using assms by (rule sum_list_values)
  also have "\<dots> = card {k \<in> dom (map_of al). P (the (map_of al k))}"
    by (simp add: sum.If_cases finite_dom_map_of Int_def)
  finally show ?thesis .
qed

subsection \<open>Statistics\<close>

lemma count_fold:
  "map_of (fold (\<lambda>page status_counts.
             AList.update (status_code page)
               ((case map_of status_counts (status_code page) of None \<Rightarrow> 0 | Some c \<Rightarrow> c) + 1)
               status_counts) ps acc) c
   = (if c \<in> status_code ` set ps
      then Some ((case map_of acc c of None \<Rightarrow> 0 | Some k \<Rightarrow> k)
                 + int (length (filter (\<lambda>p. status_code p = c) ps)))
      else map_of acc c)"
proof (induction ps arbitrary: acc)
  case Nil
  then show ?case by simp
next
  case (Cons p ps)
  show ?case
    by (auto simp: Cons.IH AList.update_conv' filter_empty_conv image_iff split: option.splits)
qed

lemma image_iff_filter: "c \<in> f ` set xs \<longleftrightarrow> 0 < length (filter (\<lambda>p. f p = c) xs)"
  by (induction xs) auto

lemma count_status_codes_lookup:
  "map_of (count_status_codes pd) c
   = (if c \<in> status_code ` set (map snd pd)
      then Some (int (length (filter (\<lambda>p. status_code p = c) (map snd pd))))
      else None)"
  unfolding count_status_codes_def count_fold by simp

lemma naive_fold_exact:
  assumes "\<forall>k \<le> a + sum_list ns. round64 W (real k / 1024) = real k / 1024"
  shows "fold (\<lambda>x acc. round64 W (acc + x)) (map (\<lambda>n. round64 W (real n / 1024)) ns) (real a / 1024)
           = real (a + sum_list ns) / 1024"
  using assms
proof (induction ns arbitrary: a)
  case Nil
  then show ?case by simp
next
  case (Cons n ns)
  have "n \<le> a + sum_list (n # ns)" and "a + n \<le> a + sum_list (n # ns)"
    by simp_all
  with Cons.prems have n: "round64 W (real n / 1024) = real n / 1024"
    and an: "round64 W (real (a + n) / 1024) = real (a + n) / 1024"
    by blast+
  have "real a / 1024 + real n / 1024 = real (a + n) / 1024"
    by (simp add: add_divide_distrib)
  then have step: "round64 W (real a / 1024 + round64 W (real n / 1024)) = real (a + n) / 1024"
    unfolding n using an by (simp only:)
  have "fold (\<lambda>x acc. round64 W (acc + x)) (map (\<lambda>n. round64 W (real n / 1024)) ns) (real (a + n) / 1024)
      = real (a + n + sum_list ns) / 1024"
    using Cons.prems by (intro Cons.IH) (simp add: add.assoc)
  then show ?case
    by (simp add: step add.assoc del: of_nat_add)
qed

lemma neumaier_step_exact:
  assumes pos: "\<forall>k \<le> a + n. round64 W (real k / 1024) = real k / 1024"
    and neg: "\<forall>k \<le> a + n. round64 W (- (real k / 1024)) = - (real k / 1024)"
  shows "neumaier_step W (round64 W (real n / 1024)) (real a / 1024, 0) = (real (a + n) / 1024, 0)"
proof -
  have "n \<le> a + n" and "a \<le> a + n" and "a + n \<le> a + n" and "0 \<le> a + n"
    by simp_all
  with pos neg have n: "round64 W (real n / 1024) = real n / 1024"
    and an: "round64 W (real (a + n) / 1024) = real (a + n) / 1024"
    and mn: "round64 W (- (real n / 1024)) = - (real n / 1024)"
    and ma: "round64 W (- (real a / 1024)) = - (real a / 1024)"
    and z: "round64 W (real 0 / 1024) = real 0 / 1024"
    by blast+
  from z have z0: "round64 W 0 = 0" by simp
  have sum: "real a / 1024 + real n / 1024 = real (a + n) / 1024"
    by (simp add: add_divide_distrib)
  have t: "round64 W (real a / 1024 + real n / 1024) = real (a + n) / 1024"
    unfolding sum by (rule an)
  have d1: "real a / 1024 - real (a + n) / 1024 = - (real n / 1024)"
    by (simp add: add_divide_distrib)
  have d2: "real n / 1024 - real (a + n) / 1024 = - (real a / 1024)"
    by (simp add: add_divide_distrib)
  show ?thesis
    unfolding neumaier_step_def Let_def fst_conv snd_conv n t d1 d2 mn ma
    by (simp add: z0)
qed

lemma neumaier_fold_exact:
  assumes "\<forall>k \<le> a + sum_list ns. round64 W (real k / 1024) = real k / 1024"
    and "\<forall>k \<le> a + sum_list ns. round64 W (- (real k / 1024)) = - (real k / 1024)"
  shows "fold (neumaier_step W) (map (\<lambda>n. round64 W (real n / 1024)) ns) (real a / 1024, 0)
           = (real (a + sum_list ns) / 1024, 0)"
  using assms
proof (induction ns arbitrary: a)
  case Nil
  then show ?case by simp
next
  case (Cons n ns)
  have step: "neumaier_step W (round64 W (real n / 1024)) (real a / 1024, 0) = (real (a + n) / 1024, 0)"
    using Cons.prems by (intro neumaier_step_exact) simp_all
  have "fold (neumaier_step W) (map (\<lambda>n. round64 W (real n / 1024)) ns) (real (a + n) / 1024, 0)
      = (real (a + n + sum_list ns) / 1024, 0)"
    using Cons.prems by (intro Cons.IH) (simp_all add: add.assoc)
  then show ?case
    by (simp add: step add.assoc del: of_nat_add)
qed

lemma naive_sum_exact:
  assumes "\<forall>k \<le> sum_list ns. round64 W (real k / 1024) = real k / 1024"
  shows "naive_sum W (map (\<lambda>n. round64 W (real n / 1024)) ns) = real (sum_list ns) / 1024"
proof -
  have "fold (\<lambda>x acc. round64 W (acc + x)) (map (\<lambda>n. round64 W (real n / 1024)) ns) (real 0 / 1024)
        = real (0 + sum_list ns) / 1024"
    using assms by (intro naive_fold_exact) simp
  then show ?thesis
    by (simp add: naive_sum_def)
qed

lemma neumaier_sum_exact:
  assumes pos: "\<forall>k \<le> sum_list ns. round64 W (real k / 1024) = real k / 1024"
    and neg: "\<forall>k \<le> sum_list ns. round64 W (- (real k / 1024)) = - (real k / 1024)"
  shows "neumaier_sum W (map (\<lambda>n. round64 W (real n / 1024)) ns) = real (sum_list ns) / 1024"
proof (cases ns)
  case Nil
  then show ?thesis by (simp add: neumaier_sum_def)
next
  case (Cons n rest)
  have "n \<le> sum_list ns" by (simp add: Cons)
  with pos have n: "round64 W (real n / 1024) = real n / 1024" by blast
  have "fold (neumaier_step W) (map (\<lambda>n. round64 W (real n / 1024)) rest) (real n / 1024, 0)
        = (real (n + sum_list rest) / 1024, 0)"
    using pos neg by (intro neumaier_fold_exact) (simp_all add: Cons)
  then show ?thesis
    by (simp add: neumaier_sum_def Cons n del: of_nat_add)
qed

lemma float_sum_sizes_exact:
  assumes "\<forall>k \<le> sum_list (map (\<lambda>page. length (html page)) ps).
             round64 W (real k / 1024) = real k / 1024"
    and "\<forall>k \<le> sum_list (map (\<lambda>page. length (html page)) ps).
             round64 W (- (real k / 1024)) = - (real k / 1024)"
  shows "float_sum W (map (\<lambda>page. round64 W (real (length (html page)) / 1024)) ps)
           = real (sum_list (map (\<lambda>page. length (html page)) ps)) / 1024"
proof -
  have eq: "map (\<lambda>page. round64 W (real (length (html page)) / 1024)) ps
      = map (\<lambda>n. round64 W (real n / 1024)) (map (\<lambda>page. length (html page)) ps)"
    by (simp add: comp_def)
  show ?thesis
    unfolding float_sum_def eq
    using naive_sum_exact [OF assms(1)] neumaier_sum_exact [OF assms]
    by simp
qed

text \<open>
  C9, as the code has it. With the \<open>pages\<close> and \<open>errors\<close> of a result read as mappings
  from URLs: \<open>total_pages_crawled\<close> and \<open>total_errors\<close> are the numbers of their keys,
  and \<open>pages_by_status_code\<close> maps a status code to the number of collected pages that
  have it, with no entry for a code no page has. The two averages are floats. The
  average load time is the arithmetic mean of the load times rounded to the nearest
  binary64 number, and 0 when there is no page. The average page size is the float sum
  of the quotients \<^verbatim>\<open>len(html)/1024\<close>, taken in the order of insertion, divided by the
  number of pages and rounded, and 0 when there is no page; where every multiple of
  1/1024 up to the total size and its negative are binary64 numbers, as they are for a
  total below \<open>2^53\<close> characters, the float sum is exact, with either builtin, and the
  average is the arithmetic mean of the sizes rounded to the nearest binary64 number.
\<close>

theorem crawl_stats_correct:
  assumes "crawl cfg W start_url = Some (Inr r)"
  shows "total_pages_crawled (crawl_stats r) = int (card (dom (map_of (pages r))))
       \<and> total_errors (crawl_stats r) = int (card (dom (map_of (errors r))))
       \<and> average_load_time_ms (crawl_stats r) =
           (if dom (map_of (pages r)) = {} then 0
            else round64 W
                   (real_of_int (\<Sum>u\<in>dom (map_of (pages r)). load_time_ms (the (map_of (pages r) u)))
                    / real (card (dom (map_of (pages r))))))
       \<and> average_page_size_kb (crawl_stats r) =
           (if dom (map_of (pages r)) = {} then 0
            else round64 W
                   (float_sum W (map (\<lambda>page. round64 W (real (length (html page)) / 1024))
                                   (map snd (pages r)))
                    / real (card (dom (map_of (pages r))))))
       \<and> ((\<forall>k \<le> (\<Sum>u\<in>dom (map_of (pages r)). length (html (the (map_of (pages r) u)))).
              round64 W (real k / 1024) = real k / 1024
              \<and> round64 W (- (real k / 1024)) = - (real k / 1024)) \<longrightarrow>
           average_page_size_kb (crawl_stats r) =
             (if dom (map_of (pages r)) = {} then 0
              else round64 W
                     ((\<Sum>u\<in>dom (map_of (pages r)).
                         real (length (html (the (map_of (pages r) u)))) / 1024)
                      / real (card (dom (map_of (pages r)))))))
       \<and> (\<forall>c. map_of (pages_by_status_code (crawl_stats r)) c =
             (if \<exists>u\<in>dom (map_of (pages r)). status_code (the (map_of (pages r) u)) = c
              then Some (int (card {u \<in> dom (map_of (pages r)).
                                    status_code (the (map_of (pages r) u)) = c}))
              else None))"
proof -
  from assms obtain z where z: "crawl_run cfg W start_url = Some z"
    and m: "map_sum id (\<lambda>(base, st). make_result W base st) z = Inr r"
    by (auto simp: crawl_def)
  from m obtain base st where "z = Inr (base, st)" and r: "r = make_result W base st"
    by (cases z) auto
  with z have run: "crawl_run cfg W start_url = Some (Inr (base, st))"
    by simp
  have inv: "crawl_inv cfg start_url [] st"
    using run by (intro reachable_inv crawl_run_reachable)
  have dp: "distinct (map fst (pages_data st))" and de: "distinct (map fst (error_urls st))"
    using crawl_invD(6,7) [OF inv] .
  let ?m = "map_of (pages_data st)"
  let ?sizes = "map (\<lambda>page. round64 W (real (length (html page)) / 1024)) (map snd (pages_data st))"
  have empty: "dom ?m = {} \<longleftrightarrow> pages_data st = []"
    by (cases "pages_data st") (auto simp: dom_map_of_conv_image_fst)
  have n: "total_pages_crawled (crawl_stats r) = int (card (dom ?m))"
    by (simp add: r make_result_def card_dom_map_of [OF dp])
  have e: "total_errors (crawl_stats r) = int (card (dom (map_of (error_urls st))))"
    by (simp add: r make_result_def card_dom_map_of [OF de])
  have time: "average_load_time_ms (crawl_stats r) =
      (if dom ?m = {} then 0
       else round64 W (real_of_int (\<Sum>u\<in>dom ?m. load_time_ms (the (?m u))) / real (card (dom ?m))))"
    unfolding empty
    by (simp add: r make_result_def calculate_avg_load_time_def card_dom_map_of [OF dp]
        sum_list_values [OF dp, of load_time_ms] del: map_map)
  have size: "average_page_size_kb (crawl_stats r) =
      (if dom ?m = {} then 0 else round64 W (float_sum W ?sizes / real (card (dom ?m))))"
    unfolding empty
    by (simp add: r make_result_def calculate_avg_page_size_def card_dom_map_of [OF dp] del: map_map)
  have total: "sum_list (map (\<lambda>page. length (html page)) (map snd (pages_data st)))
      = (\<Sum>u\<in>dom ?m. length (html (the (?m u))))"
    using dp by (rule sum_list_values)
  have exact: "average_page_size_kb (crawl_stats r) =
      (if dom ?m = {} then 0
       else round64 W ((\<Sum>u\<in>dom ?m. real (length (html (the (?m u)))) / 1024) / real (card (dom ?m))))"
    if ex: "\<forall>k \<le> (\<Sum>u\<in>dom ?m. length (html (the (?m u)))).
              round64 W (real k / 1024) = real k / 1024
              \<and> round64 W (- (real k / 1024)) = - (real k / 1024)"
  proof -
    have "float_sum W ?sizes = real (sum_list (map (\<lambda>page. length (html page)) (map snd (pages_data st)))) / 1024"
      using ex unfolding total [symmetric] by (intro float_sum_sizes_exact) simp_all
    also have "\<dots> = (\<Sum>u\<in>dom ?m. real (length (html (the (?m u)))) / 1024)"
      unfolding total by (simp add: sum_divide_distrib)
    finally show ?thesis
      unfolding size by simp
  qed
  have hist: "map_of (pages_by_status_code (crawl_stats r)) c =
      (if \<exists>u\<in>dom ?m. status_code (the (?m u)) = c
       then Some (int (card {u \<in> dom ?m. status_code (the (?m u)) = c}))
       else None)" for c
  proof -
    have len: "length (filter (\<lambda>p. status_code p = c) (map snd (pages_data st)))
        = card {u \<in> dom ?m. status_code (the (?m u)) = c}"
      using dp by (rule length_filter_values)
    have "c \<in> status_code ` set (map snd (pages_data st))
        \<longleftrightarrow> 0 < length (filter (\<lambda>p. status_code p = c) (map snd (pages_data st)))"
      by (rule image_iff_filter)
    also have "\<dots> \<longleftrightarrow> (\<exists>u\<in>dom ?m. status_code (the (?m u)) = c)"
      unfolding len by (auto simp: card_gt_0_iff finite_dom_map_of)
    finally have mem: "c \<in> status_code ` set (map snd (pages_data st))
        \<longleftrightarrow> (\<exists>u\<in>dom ?m. status_code (the (?m u)) = c)" .
    show ?thesis
      by (simp only: r make_result_def CrawlResult.simps CrawlStats.simps
          count_status_codes_lookup mem len)
  qed
  from n e size time exact hist show ?thesis
    by (simp only: r make_result_sel) blast
qed

text \<open>
  The run on the example site: four pages, no error.
\<close>

theorem crawl_stats_correct_witness:
  "total_pages_crawled (crawl_stats (make_result example_world ''https://example.com'' example_final)) = 4
   \<and> total_errors (crawl_stats (make_result example_world ''https://example.com'' example_final)) = 0"
proof -
  have "distinct (map fst (pages_data example_final))"
    unfolding example_final_pages by simp
  then have "card (dom (map_of (pages_data example_final))) = length (map fst (pages_data example_final))"
    by (simp add: card_dom_map_of)
  then have "card (dom (map_of (pages_data example_final))) = 4"
    unfolding example_final_pages by simp
  then show ?thesis
    using crawl_stats_correct [OF example_crawl]
    by (simp add: example_final_errors)
qed

text \<open>
  C9 as stated fails: on a site of three pages with load times 1, 0 and 0 the
  arithmetic mean is 1/3, which is no binary64 number; the average in the statistics is
  the float next to it, \<open>6004799503160661 / 2^54\<close>, printed 0.3333333333333333.
\<close>

theorem rounded_mean_counterexample:
  "map_option (map_sum id (\<lambda>r. (map (\<lambda>e. load_time_ms (snd e)) (pages r),
                                 average_load_time_ms (crawl_stats r))))
      (crawl example_config thirds_world ''https://example.com/'')
     = Some (Inr ([1, 0, 0], 6004799503160661 / 18014398509481984))
   \<and> ((1 + 0 + 0) / 3 :: real) \<noteq> 6004799503160661 / 18014398509481984"
  by code_simp

subsection \<open>Links\<close>

lemma set_first_seen [simp]: "set (first_seen xs) = set xs"
  by (induction xs rule: first_seen.induct) auto

lemma distinct_first_seen [simp]: "distinct (first_seen xs)"
  by (induction xs rule: first_seen.induct) auto

lemma append_new_Nil [simp]: "append_new acc [] = acc"
  by (simp add: append_new_def)

lemma append_new_old [simp]: "h \<in> set acc \<Longrightarrow> append_new acc (h # xs) = append_new acc xs"
  by (simp add: append_new_def)

lemma append_new_new [simp]:
  assumes "h \<notin> set acc"
  shows "append_new acc (h # xs) = append_new (acc @ [h]) xs"
proof -
  have "filter (\<lambda>y. y \<noteq> h) (filter (\<lambda>y. y \<notin> set acc) xs) = filter (\<lambda>y. y \<notin> set (acc @ [h])) xs"
    by (induction xs) auto
  with assms show ?thesis by (simp add: append_new_def)
qed







text \<open>
  \<^verbatim>\<open>_process_url\<close> calls \<^verbatim>\<open>_extract_content\<close> before \<^verbatim>\<open>_extract_links\<close> on the same
  parsed document, so the anchors inside script, style, header, footer and nav elements
  are gone when the links are extracted: the link of the navigation bar is found in the
  document as parsed and lost in the document as the worker hands it on.
\<close>

lemma nav_links_lost:
  "extract_links example_world nav_soup ''https://example.com'' ''https://example.com/''
     = ([''https://example.com/a''], [])
   \<and> extract_links example_world (extract_content_soup nav_soup) ''https://example.com''
       ''https://example.com/'' = ([], [])"
  by code_simp

end
